theory Spec2Isabelle
  imports Complex_Main "HOL-Library.Word" "HOL-Library.Option_ord"
begin

unbundle bit_operations_syntax

section \<open>Heightmap rendering: data model\<close>

text \<open>
  The development embeds the heightmap renderer (\<^verbatim>\<open>Kernel::Heightmap\<close>: the normal
  batcher, \<^verbatim>\<open>pixels\<close>, \<^verbatim>\<open>fill\<close>, \<^verbatim>\<open>recurse\<close> and \<^verbatim>\<open>render\<close>).

  Numbers: a \<^verbatim>\<open>float\<close> is modelled as a \<^typ>\<open>real\<close> with exact arithmetic; the two
  places where the floating-point special values matter are written out: a depth pixel is
  a \<^typ>\<open>real option\<close> with \<^term>\<open>None\<close> for minus infinity (the order on
  options puts \<^term>\<open>None\<close> below every \<^term>\<open>Some z\<close>), and
  the quotient by a zero length in the normal batcher is \<^term>\<open>None\<close> for NaN.
  Sizes and indices are natural numbers; packed normals are 32-bit words.
\<close>

type_synonym point = "real \<times> real \<times> real"

datatype error = Out_of_bounds | Unsplittable | Assertion_failed

text \<open>A view: \<^verbatim>\<open>corner\<close> and \<^verbatim>\<open>size\<close> of a sub-box of the voxel grid.\<close>

record View =
  corner_x :: nat
  corner_y :: nat
  corner_z :: nat
  size_x :: nat
  size_y :: nat
  size_z :: nat

text \<open>
  The voxel grid: the three arrays of sample positions. Modelled from the spec: the
  class \<^verbatim>\<open>Voxels\<close> and its \<^verbatim>\<open>View\<close> are declared in a header that is not among the
  sources. \<^verbatim>\<open>r.lower\<close> and \<^verbatim>\<open>r.upper\<close>, the interval bounds of a sub-box, are taken as
  functions of the sub-box; \<^verbatim>\<open>r.pts.x()[i]\<close> is the parent array read at
  \<^verbatim>\<open>corner.x + i\<close>.
\<close>

record Voxels =
  pts_x :: "real list"
  pts_y :: "real list"
  pts_z :: "real list"
  view_lower :: "View \<Rightarrow> point"
  view_upper :: "View \<Rightarrow> point"

definition voxels :: "View \<Rightarrow> nat" where
  "voxels r = size_x r * size_y r * size_z r"

text \<open>Modelled from the spec: \<^verbatim>\<open>Voxels::view()\<close>, the view of the whole grid.\<close>

definition view :: "Voxels \<Rightarrow> View" where
  "view g = \<lparr>corner_x = 0, corner_y = 0, corner_z = 0,
     size_x = length (pts_x g), size_y = length (pts_y g), size_z = length (pts_z g)\<rparr>"

text \<open>
  Modelled from the spec: \<^verbatim>\<open>View::split\<close> (its definition is not among the sources).
  The default split bisects the axis of largest size (ties: X before Y before Z); the
  directional variant \<^verbatim>\<open>split<Axis::X | Axis::Y>\<close> considers X and Y only. The pair is
  (low, high), and high holds the larger indices. The spec leaves open which half gets
  the odd voxel: here the low half has \<open>size div 2\<close>. Splitting an axis of fewer than two
  voxels is the error "View split when unsplittable".
\<close>

definition split_x :: "View \<Rightarrow> error + View \<times> View" where
  "split_x r = (if size_x r < 2 then Inl Unsplittable
     else Inr (r\<lparr>size_x := size_x r div 2\<rparr>,
               r\<lparr>corner_x := corner_x r + size_x r div 2, size_x := size_x r - size_x r div 2\<rparr>))"

definition split_y :: "View \<Rightarrow> error + View \<times> View" where
  "split_y r = (if size_y r < 2 then Inl Unsplittable
     else Inr (r\<lparr>size_y := size_y r div 2\<rparr>,
               r\<lparr>corner_y := corner_y r + size_y r div 2, size_y := size_y r - size_y r div 2\<rparr>))"

definition split_z :: "View \<Rightarrow> error + View \<times> View" where
  "split_z r = (if size_z r < 2 then Inl Unsplittable
     else Inr (r\<lparr>size_z := size_z r div 2\<rparr>,
               r\<lparr>corner_z := corner_z r + size_z r div 2, size_z := size_z r - size_z r div 2\<rparr>))"

definition split :: "View \<Rightarrow> error + View \<times> View" where
  "split r = (if size_y r \<le> size_x r \<and> size_z r \<le> size_x r then split_x r
     else if size_z r \<le> size_y r then split_y r
     else split_z r)"

definition split_xy :: "View \<Rightarrow> error + View \<times> View" where
  "split_xy r = (if size_y r \<le> size_x r then split_x r else split_y r)"

subsection \<open>The evaluator\<close>

text \<open>
  Modelled from the spec: the evaluator (its header is not among the sources) is bound
  to one expression tree and is used as a black box. A tree is taken as the three
  functions the evaluator computes from it: the field value and the gradient at a
  (transformed) point, and the interval of the field over a box under a transform.
  The transform matrix is a function on points: the renderer never inspects it.

  The evaluator owns the staged points (\<open>slots\<close>) and the array of results that
  \<^verbatim>\<open>values\<close> returns a pointer to (\<open>results\<close>). What an evaluation of gradients leaves
  in the results of the slots it evaluates is not specified: it is the fourth function,
  \<open>tree_residue\<close>, of the staged points and the slot.
\<close>

record Tree =
  tree_field :: "point \<Rightarrow> real"
  tree_gradient :: "point \<Rightarrow> point"
  tree_interval :: "(point \<Rightarrow> point) \<Rightarrow> point \<Rightarrow> point \<Rightarrow> real \<times> real"
  tree_residue :: "(nat \<Rightarrow> point) \<Rightarrow> nat \<Rightarrow> real"

record Evaluator =
  tree :: Tree
  matrix :: "point \<Rightarrow> point"
  slots :: "nat \<Rightarrow> point"
  results :: "nat \<Rightarrow> real"
  pushes :: nat
  pops :: nat

definition new_evaluator :: "Tree \<Rightarrow> Evaluator" where
  "new_evaluator t = \<lparr>tree = t, matrix = (\<lambda>p. p), slots = (\<lambda>_. (0, 0, 0)), results = (\<lambda>_. 0),
     pushes = 0, pops = 0\<rparr>"

definition set_matrix :: "(point \<Rightarrow> point) \<Rightarrow> Evaluator \<Rightarrow> Evaluator" where
  "set_matrix m e = e\<lparr>matrix := m\<rparr>"

definition set_raw :: "point \<Rightarrow> nat \<Rightarrow> Evaluator \<Rightarrow> Evaluator" where
  "set_raw p k e = e\<lparr>slots := (slots e)(k := p)\<rparr>"

definition set_point :: "point \<Rightarrow> nat \<Rightarrow> Evaluator \<Rightarrow> Evaluator" where
  "set_point p k e = e\<lparr>slots := (slots e)(k := matrix e p)\<rparr>"

definition apply_transform :: "nat \<Rightarrow> Evaluator \<Rightarrow> Evaluator" where
  "apply_transform n e = e\<lparr>slots := (\<lambda>k. if k < n then matrix e (slots e k) else slots e k)\<rparr>"

text \<open>
  \<^verbatim>\<open>values(n)\<close> evaluates the first \<open>n\<close> slots into the results; the pointer it returns is
  the array \<open>results\<close> of the evaluator. \<^verbatim>\<open>derivs(n)\<close> returns the gradients of the first
  \<open>n\<close> slots and may overwrite their results.
\<close>

definition values_of :: "nat \<Rightarrow> Evaluator \<Rightarrow> Evaluator" where
  "values_of n e =
     e\<lparr>results := (\<lambda>k. if k < n then tree_field (tree e) (slots e k) else results e k)\<rparr>"

definition derivs :: "nat \<Rightarrow> Evaluator \<Rightarrow> point list \<times> Evaluator" where
  "derivs n e =
     (map (\<lambda>k. tree_gradient (tree e) (slots e k)) [0..<n],
      e\<lparr>results := (\<lambda>k. if k < n then tree_residue (tree e) (slots e) k else results e k)\<rparr>)"

definition eval_interval :: "point \<Rightarrow> point \<Rightarrow> Evaluator \<Rightarrow> real \<times> real" where
  "eval_interval lo hi e = tree_interval (tree e) (matrix e) lo hi"

definition push_ev :: "Evaluator \<Rightarrow> Evaluator" where
  "push_ev e = e\<lparr>pushes := pushes e + 1\<rparr>"

definition pop_ev :: "Evaluator \<Rightarrow> Evaluator" where
  "pop_ev e = e\<lparr>pops := pops e + 1\<rparr>"

definition stack_depth :: "Evaluator \<Rightarrow> int" where
  "stack_depth e = int (pushes e) - int (pops e)"

subsection \<open>Images and the state of a worker\<close>

text \<open>
  Images are addressed \<open>(row, column) = (y, x)\<close>. The abort flag is an atomic that another
  thread may set at any time: it is modelled as a schedule \<open>abort :: nat \<Rightarrow> bool\<close> giving
  the value that the \<open>n\<close>-th load observes, and the state counts the loads.
\<close>

type_synonym DepthImage = "nat \<times> nat \<Rightarrow> real option"
type_synonym NormalImage = "nat \<times> nat \<Rightarrow> 32 word"

record State =
  ev :: Evaluator
  depth :: DepthImage
  norm :: NormalImage
  polls :: nat

section \<open>The normal batcher\<close>

record NormalRenderer =
  xs :: "nat list"
  ys :: "nat list"
  count :: nat

text \<open>The arrays \<^verbatim>\<open>xs\<close> and \<^verbatim>\<open>ys\<close> have \<^verbatim>\<open>NUM_POINTS\<close> cells; \<^verbatim>\<open>count\<close> starts at 0.\<close>

definition new_renderer :: "nat \<Rightarrow> NormalRenderer" where
  "new_renderer N = \<lparr>xs = replicate N 0, ys = replicate N 0, count = 0\<rparr>"

definition veclen :: "point \<Rightarrow> real" where
  "veclen d = (case d of (dx, dy, dz) \<Rightarrow> sqrt (dx ^ 2 + dy ^ 2 + dz ^ 2))"

text \<open>
  \<^verbatim>\<open>255 * (d / (2 * length) + 0.5)\<close>. With a zero length the quotient is not a number
  (\<open>0 / 0\<close> when \<open>d\<close> is a component of that gradient, infinite otherwise): \<^term>\<open>None\<close>.
\<close>

definition scaled :: "real \<Rightarrow> real \<Rightarrow> real option" where
  "scaled d len = (if 2 * len = 0 then None else Some (255 * (d / (2 * len) + 1 / 2)))"

text \<open>
  The conversion to \<^verbatim>\<open>uint32_t\<close> truncates towards zero. Converting a NaN, or a value
  whose truncation does not fit, is undefined in C++: the model takes the word that
  the platform then produces as the parameter \<open>u\<close>.
\<close>

definition to_uint32 :: "32 word \<Rightarrow> real option \<Rightarrow> 32 word" where
  "to_uint32 u v = (case v of None \<Rightarrow> u
     | Some x \<Rightarrow> if - 1 < x \<and> x < 2 ^ 32 then word_of_nat (nat \<lfloor>x\<rfloor>) else u)"

definition pack :: "32 word \<Rightarrow> point \<Rightarrow> 32 word" where
  "pack u d = (case d of (dx, dy, dz) \<Rightarrow>
     let len = veclen d;
         ix = to_uint32 u (scaled dx len);
         iy = to_uint32 u (scaled dy len);
         iz = to_uint32 u (scaled dz len)
     in push_bit 24 0xff OR push_bit 16 iz OR push_bit 8 iy OR ix)"

definition run :: "32 word \<Rightarrow> NormalRenderer \<times> State \<Rightarrow> NormalRenderer \<times> State" where
  "run u = (\<lambda>(nr, s).
     let (ds, e) = derivs (count nr) (ev s)
     in (nr\<lparr>count := 0\<rparr>,
         s\<lparr>ev := e,
           norm := fold (\<lambda>i nm. nm((ys nr ! i, xs nr ! i) := pack u (ds ! i)))
                      [0..<count nr] (norm s)\<rparr>))"

definition flush :: "32 word \<Rightarrow> NormalRenderer \<times> State \<Rightarrow> NormalRenderer \<times> State" where
  "flush u = (\<lambda>(nr, s). if 0 < count nr then run u (nr, s) else (nr, s))"

text \<open>
  \<^verbatim>\<open>push\<close> writes \<^verbatim>\<open>xs[count]\<close> and \<^verbatim>\<open>ys[count]\<close>: a write past the end of the arrays
  is the error \<^term>\<open>Out_of_bounds\<close>.
\<close>

definition push :: "nat \<Rightarrow> 32 word \<Rightarrow> Voxels \<Rightarrow> View \<Rightarrow> nat \<Rightarrow> nat \<Rightarrow> real
    \<Rightarrow> NormalRenderer \<times> State \<Rightarrow> error + NormalRenderer \<times> State" where
  "push N u g r i j z = (\<lambda>(nr, s).
     if count nr < length (xs nr) \<and> count nr < length (ys nr) then
       let nr1 = nr\<lparr>xs := (xs nr)[count nr := corner_x r + i],
                    ys := (ys nr)[count nr := corner_y r + j]\<rparr>;
           s1 = s\<lparr>ev := set_point (pts_x g ! (corner_x r + i), pts_y g ! (corner_y r + j), z)
                           (count nr) (ev s)\<rparr>;
           nr2 = nr1\<lparr>count := count nr + 1\<rparr>
       in if count nr2 = N then Inr (run u (nr2, s1)) else Inr (nr2, s1)
     else Inl Out_of_bounds)"

text \<open>The destructor asserts that the normals were flushed.\<close>

definition destroy :: "NormalRenderer \<Rightarrow> error + unit" where
  "destroy nr = (if count nr = 0 then Inr () else Inl Assertion_failed)"

section \<open>The leaf rasterizer\<close>

definition top_z :: "Voxels \<Rightarrow> View \<Rightarrow> real" where
  "top_z g r = pts_z g ! (corner_z r + (size_z r - 1))"

definition pixel :: "View \<Rightarrow> nat \<Rightarrow> nat \<Rightarrow> nat \<times> nat" where
  "pixel r i j = (corner_y r + j, corner_x r + i)"

text \<open>The position \<^verbatim>\<open>{r.pts.x()[i], r.pts.y()[j], r.pts.z()[r.size.z() - k - 1]}\<close>.\<close>

definition voxel_point :: "Voxels \<Rightarrow> View \<Rightarrow> nat \<Rightarrow> nat \<Rightarrow> nat \<Rightarrow> point" where
  "voxel_point g r i j k =
     (pts_x g ! (corner_x r + i), pts_y g ! (corner_y r + j),
      pts_z g ! (corner_z r + (size_z r - k - 1)))"

text \<open>A loop over a range whose body may fail: the first error ends it.\<close>

fun for_each :: "'a list \<Rightarrow> ('a \<Rightarrow> 's \<Rightarrow> error + 's) \<Rightarrow> 's \<Rightarrow> error + 's" where
  "for_each [] f s = Inr s"
| "for_each (a # as) f s = (case f a s of Inl e \<Rightarrow> Inl e | Inr s' \<Rightarrow> for_each as f s')"

text \<open>
  The guard of \<^verbatim>\<open>VIEW_ITERATE_XYZ\<close>: the column of pixel \<open>(i, j)\<close> is visited only while
  its depth is below the top of the view.
\<close>

definition column_open :: "Voxels \<Rightarrow> View \<Rightarrow> DepthImage \<Rightarrow> nat \<Rightarrow> nat \<Rightarrow> bool" where
  "column_open g r d i j \<longleftrightarrow> d (pixel r i j) < Some (top_z g r)"

text \<open>First pass of \<^verbatim>\<open>pixels\<close>: the voxels are flattened into the slots of the evaluator.\<close>

definition stage_column :: "Voxels \<Rightarrow> View \<Rightarrow> nat \<Rightarrow> nat \<Rightarrow> Evaluator \<times> nat \<Rightarrow> Evaluator \<times> nat" where
  "stage_column g r i j =
     fold (\<lambda>k (e, index). (set_raw (voxel_point g r i j k) index e, index + 1)) [0..<size_z r]"

definition stage :: "Voxels \<Rightarrow> View \<Rightarrow> DepthImage \<Rightarrow> Evaluator \<times> nat \<Rightarrow> Evaluator \<times> nat" where
  "stage g r d =
     fold (\<lambda>i. fold (\<lambda>j st. if column_open g r d i j then stage_column g r i j st else st)
                  [0..<size_y r])
          [0..<size_x r]"

text \<open>
  Second pass: the loop over \<open>k\<close> of one column, with its \<^verbatim>\<open>break\<close>. The state is the
  cursor \<^verbatim>\<open>index\<close> into the results, the batcher and the images. \<^verbatim>\<open>out\<close> points into the
  evaluator, which the batcher uses too: \<^verbatim>\<open>out[index]\<close> is the result that the evaluator
  holds at \<open>index\<close> when it is read.
\<close>

fun scan_column :: "nat \<Rightarrow> 32 word \<Rightarrow> Voxels \<Rightarrow> View \<Rightarrow> nat \<Rightarrow> nat \<Rightarrow> nat list
    \<Rightarrow> nat \<times> NormalRenderer \<times> State \<Rightarrow> error + nat \<times> NormalRenderer \<times> State" where
  "scan_column N u g r i j [] st = Inr st"
| "scan_column N u g r i j (k # ks) (index, nr, s) =
     (if results (ev s) index < 0 then
        (let z = pts_z g ! (corner_z r + (size_z r - k - 1)) in
         case (if depth s (pixel r i j) < Some z
               then push N u g r i j z (nr, s\<lparr>depth := (depth s)(pixel r i j := Some z)\<rparr>)
               else Inr (nr, s)) of
           Inl e \<Rightarrow> Inl e
         | Inr (nr', s') \<Rightarrow> Inr (index + 1 + (size_z r - k - 1), nr', s'))
      else scan_column N u g r i j ks (index + 1, nr, s))"

definition unflatten :: "nat \<Rightarrow> 32 word \<Rightarrow> Voxels \<Rightarrow> View
    \<Rightarrow> nat \<times> NormalRenderer \<times> State \<Rightarrow> error + nat \<times> NormalRenderer \<times> State" where
  "unflatten N u g r =
     for_each [0..<size_x r] (\<lambda>i.
       for_each [0..<size_y r] (\<lambda>j st.
         if column_open g r (depth (snd (snd st))) i j
         then scan_column N u g r i j [0..<size_z r] st
         else Inr st))"

definition pixels :: "nat \<Rightarrow> 32 word \<Rightarrow> Voxels \<Rightarrow> View \<Rightarrow> State \<Rightarrow> error + State" where
  "pixels N u g r s =
     (let (e1, index) = stage g r (depth s) (ev s, 0);
          e2 = apply_transform index e1;
          e3 = values_of index e2
      in case unflatten N u g r (0, new_renderer N, s\<lparr>ev := e3\<rparr>) of
           Inl e \<Rightarrow> Inl e
         | Inr (index', nr, s') \<Rightarrow>
             (case flush u (nr, s') of (nr', s'') \<Rightarrow>
                (case destroy nr' of Inl e \<Rightarrow> Inl e | Inr _ \<Rightarrow> Inr s'')))"

section \<open>The fill primitive\<close>

definition fill :: "nat \<Rightarrow> 32 word \<Rightarrow> Voxels \<Rightarrow> View \<Rightarrow> State \<Rightarrow> error + State" where
  "fill N u g r s =
     (let z = top_z g r
      in case for_each [0..<size_x r] (\<lambda>i.
                for_each [0..<size_y r] (\<lambda>j (nr, s).
                  if depth s (pixel r i j) < Some z
                  then push N u g r i j z (nr, s\<lparr>depth := (depth s)(pixel r i j := Some z)\<rparr>)
                  else Inr (nr, s)))
              (new_renderer N, s) of
           Inl e \<Rightarrow> Inl e
         | Inr (nr, s') \<Rightarrow>
             (case flush u (nr, s') of (nr', s'') \<Rightarrow>
                (case destroy nr' of Inl e \<Rightarrow> Inl e | Inr _ \<Rightarrow> Inr s'')))"

section \<open>The recursive renderer\<close>

text \<open>
  \<^verbatim>\<open>(block >= r.pts.z()[r.size.z() - 1]).all()\<close>: every pixel of the footprint is at or
  above the top of the view.
\<close>

definition occluded :: "Voxels \<Rightarrow> View \<Rightarrow> DepthImage \<Rightarrow> bool" where
  "occluded g r d \<longleftrightarrow>
     (\<forall>i \<in> set [0..<size_x r]. \<forall>j \<in> set [0..<size_y r]. Some (top_z g r) \<le> d (pixel r i j))"

text \<open>
  \<^verbatim>\<open>recurse\<close> returns \<^verbatim>\<open>true\<close> when finished and \<^verbatim>\<open>false\<close> when aborted. Each call
  loads the abort flag once.
\<close>

function recurse :: "nat \<Rightarrow> 32 word \<Rightarrow> Voxels \<Rightarrow> (nat \<Rightarrow> bool) \<Rightarrow> View \<Rightarrow> State
    \<Rightarrow> error + bool \<times> State" where
  "recurse N u g abort r s0 =
     (let s = s0\<lparr>polls := polls s0 + 1\<rparr> in
      if abort (polls s0) then Inr (False, s)
      else if occluded g r (depth s) then Inr (True, s)
      else if voxels r \<le> N then
        (case pixels N u g r s of Inl e \<Rightarrow> Inl e | Inr s' \<Rightarrow> Inr (True, s'))
      else
        (case eval_interval (view_lower g r) (view_upper g r) (ev s) of (lower, upper) \<Rightarrow>
           if upper < 0 then
             (case fill N u g r s of Inl e \<Rightarrow> Inl e | Inr s' \<Rightarrow> Inr (True, s'))
           else if lower \<le> 0 then
             (case split r of
                Inl e \<Rightarrow> Inl e
              | Inr (first, second) \<Rightarrow>
                  (case recurse N u g abort second (s\<lparr>ev := push_ev (ev s)\<rparr>) of
                     Inl e \<Rightarrow> Inl e
                   | Inr (done2, s2) \<Rightarrow>
                       if \<not> done2 then Inr (False, s2\<lparr>ev := pop_ev (ev s2)\<rparr>)
                       else
                         (case recurse N u g abort first s2 of
                            Inl e \<Rightarrow> Inl e
                          | Inr (done1, s1) \<Rightarrow>
                              if \<not> done1 then Inr (False, s1\<lparr>ev := pop_ev (ev s1)\<rparr>)
                              else Inr (True, s1\<lparr>ev := pop_ev (ev s1)\<rparr>))))
           else Inr (True, s)))"
  by pat_completeness auto
termination
proof -
  have smaller: "voxels a < voxels r \<and> voxels b < voxels r"
    if "split r = Inr (a, b)" and "\<not> voxels r \<le> N" for r a b and N :: nat
  proof -
    from that(2) have "0 < voxels r" by simp
    then have pos: "0 < size_x r" "0 < size_y r" "0 < size_z r"
      by (simp_all add: voxels_def)
    from that(1) consider
      (X) "2 \<le> size_x r" "a = r\<lparr>size_x := size_x r div 2\<rparr>"
          "b = r\<lparr>corner_x := corner_x r + size_x r div 2, size_x := size_x r - size_x r div 2\<rparr>"
    | (Y) "2 \<le> size_y r" "a = r\<lparr>size_y := size_y r div 2\<rparr>"
          "b = r\<lparr>corner_y := corner_y r + size_y r div 2, size_y := size_y r - size_y r div 2\<rparr>"
    | (Z) "2 \<le> size_z r" "a = r\<lparr>size_z := size_z r div 2\<rparr>"
          "b = r\<lparr>corner_z := corner_z r + size_z r div 2, size_z := size_z r - size_z r div 2\<rparr>"
      by (auto simp: split_def split_x_def split_y_def split_z_def split: if_splits)
    then show ?thesis
    proof cases
      case X
      then have "size_x r div 2 < size_x r" "size_x r - size_x r div 2 < size_x r" by auto
      then show ?thesis using pos X by (simp add: voxels_def)
    next
      case Y
      then have "size_y r div 2 < size_y r" "size_y r - size_y r div 2 < size_y r" by auto
      then show ?thesis using pos Y by (simp add: voxels_def)
    next
      case Z
      then have "size_z r div 2 < size_z r" "size_z r - size_z r div 2 < size_z r" by auto
      then show ?thesis using pos Z by (simp add: voxels_def)
    qed
  qed
  show ?thesis
    by (relation "measure (\<lambda>(N, u, g, abort, r, s). voxels r)") (auto dest: smaller)
qed

declare recurse.simps [simp del]

section \<open>The parallel driver\<close>

text \<open>
  The list of regions: while there are fewer regions than evaluators and the front
  region is more than one pixel wide in both X and Y, the front is split on X or Y and
  the halves go to the back.
\<close>

function build_regions :: "nat \<Rightarrow> View list \<Rightarrow> error + View list" where
  "build_regions workers rs =
     (case rs of
        [] \<Rightarrow> Inl Out_of_bounds
      | f # rest \<Rightarrow>
          if length rs < workers \<and> 1 < min (size_x f) (size_y f) then
            (case split_xy f of
               Inl e \<Rightarrow> Inl e
             | Inr (first, second) \<Rightarrow> build_regions workers (rest @ [first, second]))
          else Inr rs)"
  by pat_completeness auto
termination
  by (relation "measure (\<lambda>(workers, rs). workers - length rs)") auto

declare build_regions.simps [simp del]

text \<open>
  One asynchronous call per region, each capturing the iterator \<^verbatim>\<open>itr\<close> into the pool
  and its region; the matrix is installed on the evaluator before the launch.
  Dereferencing the iterator past the end of the pool is the error \<^term>\<open>Out_of_bounds\<close>.
\<close>

fun launch :: "(point \<Rightarrow> point) \<Rightarrow> Evaluator list \<Rightarrow> nat \<Rightarrow> View list
    \<Rightarrow> error + Evaluator list \<times> (nat \<times> View) list" where
  "launch m es itr [] = Inr (es, [])"
| "launch m es itr (region # rest) =
     (if itr < length es then
        (case launch m (es[itr := set_matrix m (es ! itr)]) (itr + 1) rest of
           Inl e \<Rightarrow> Inl e
         | Inr (es', futures) \<Rightarrow> Inr (es', (itr, region) # futures))
      else Inl Out_of_bounds)"

text \<open>
  The calls run in parallel threads in the source. Here they run one after the other, in
  the order of the list: each call has an evaluator of its own, and the regions have
  disjoint footprints in the images.
\<close>

fun join :: "nat \<Rightarrow> 32 word \<Rightarrow> Voxels \<Rightarrow> (nat \<Rightarrow> bool) \<Rightarrow> Evaluator list \<Rightarrow> (nat \<times> View) list
    \<Rightarrow> DepthImage \<times> NormalImage \<times> nat \<Rightarrow> error + DepthImage \<times> NormalImage \<times> nat" where
  "join N u g abort es [] im = Inr im"
| "join N u g abort es ((itr, region) # rest) (d, n, p) =
     (case recurse N u g abort region \<lparr>ev = es ! itr, depth = d, norm = n, polls = p\<rparr> of
        Inl e \<Rightarrow> Inl e
      | Inr (_, s) \<Rightarrow> join N u g abort (es[itr := ev s]) rest (depth s, norm s, polls s))"

definition sky :: "32 word" where
  "sky = 0xffff7f7f"

text \<open>
  The first half of \<^verbatim>\<open>render\<close>: the list of regions and the launch of one call per
  region. The result is the pool (with the matrix installed) and the launched calls.
\<close>

definition dispatch :: "(point \<Rightarrow> point) \<Rightarrow> Evaluator list \<Rightarrow> Voxels
    \<Rightarrow> error + Evaluator list \<times> (nat \<times> View) list" where
  "dispatch m es g =
     (case build_regions (length es) [view g] of
        Inl e \<Rightarrow> Inl e
      | Inr rs \<Rightarrow> launch m es 0 rs)"

text \<open>
  \<^verbatim>\<open>render\<close>: both images are cleared, the calls are launched and awaited, and every
  pixel whose depth is the last z sample gets the constant normal.
\<close>

definition render :: "nat \<Rightarrow> 32 word \<Rightarrow> Evaluator list \<Rightarrow> Voxels \<Rightarrow> (nat \<Rightarrow> bool) \<Rightarrow> (point \<Rightarrow> point)
    \<Rightarrow> error + DepthImage \<times> NormalImage" where
  "render N u es g abort m =
     (case dispatch m es g of
        Inl e \<Rightarrow> Inl e
      | Inr (es', futures) \<Rightarrow>
          (case join N u g abort es' futures ((\<lambda>_. None), (\<lambda>_. 0), 0) of
             Inl e \<Rightarrow> Inl e
           | Inr (d, n, p) \<Rightarrow>
               Inr (d, (\<lambda>px. if d px = Some (last (pts_z g)) then sky else n px))))"


section \<open>Notions used in the statements\<close>

text \<open>
  The batcher is well formed when its arrays have \<open>N\<close> cells and \<^verbatim>\<open>count\<close> is below \<open>N\<close>.
\<close>

definition nr_inv :: "nat \<Rightarrow> NormalRenderer \<Rightarrow> bool" where
  "nr_inv N nr \<longleftrightarrow> length (xs nr) = N \<and> length (ys nr) = N \<and> count nr < N"

text \<open>
  The entries waiting in the batcher (pixel and staged point), the effect of writing
  their normals, and the normal image as it will be once the batcher is flushed.
\<close>

definition queued :: "NormalRenderer \<Rightarrow> Evaluator \<Rightarrow> ((nat \<times> nat) \<times> point) list" where
  "queued nr e = map (\<lambda>k. ((ys nr ! k, xs nr ! k), slots e k)) [0..<count nr]"

definition blit :: "32 word \<Rightarrow> Tree \<Rightarrow> ((nat \<times> nat) \<times> point) list \<Rightarrow> NormalImage \<Rightarrow> NormalImage" where
  "blit u t q = fold (\<lambda>(px, p) nm. nm(px := pack u (tree_gradient t p))) q"

definition shown :: "32 word \<Rightarrow> NormalRenderer \<times> State \<Rightarrow> NormalImage" where
  "shown u = (\<lambda>(nr, s). blit u (tree (ev s)) (queued nr (ev s)) (norm s))"

definition columns :: "View \<Rightarrow> (nat \<times> nat) list" where
  "columns r = List.product [0..<size_x r] [0..<size_y r]"

fun laid_out :: "(nat \<times> nat \<Rightarrow> bool) \<Rightarrow> nat \<Rightarrow> (nat \<times> nat \<Rightarrow> nat \<Rightarrow> 'a) \<Rightarrow> (nat \<Rightarrow> 'a) \<Rightarrow> nat
    \<Rightarrow> (nat \<times> nat) list \<Rightarrow> bool" where
  "laid_out opn sz vp sl idx [] = True"
| "laid_out opn sz vp sl idx (c # cs) =
     (if opn c then (\<forall>k < sz. sl (idx + k) = vp c k) \<and> laid_out opn sz vp sl (idx + sz) cs
      else laid_out opn sz vp sl idx cs)"

definition normal_at :: "32 word \<Rightarrow> Voxels \<Rightarrow> Tree \<Rightarrow> (point \<Rightarrow> point) \<Rightarrow> nat \<times> nat \<Rightarrow> real \<Rightarrow> 32 word" where
  "normal_at u g t m p z = pack u (tree_gradient t (m (pts_x g ! snd p, pts_y g ! fst p, z)))"

definition hit_effect :: "32 word \<Rightarrow> Voxels \<Rightarrow> Tree \<Rightarrow> (point \<Rightarrow> point) \<Rightarrow> View \<Rightarrow> nat \<Rightarrow> nat \<Rightarrow> nat list
    \<Rightarrow> DepthImage \<times> NormalImage \<Rightarrow> DepthImage \<times> NormalImage" where
  "hit_effect u g t m r i j ks = (\<lambda>(d, n).
     case find (\<lambda>k. tree_field t (m (voxel_point g r i j k)) < 0) ks of
       None \<Rightarrow> (d, n)
     | Some k \<Rightarrow>
         let z = pts_z g ! (corner_z r + (size_z r - k - 1))
         in if d (pixel r i j) < Some z
            then (d(pixel r i j := Some z), n(pixel r i j := normal_at u g t m (pixel r i j) z))
            else (d, n))"

definition col_step :: "32 word \<Rightarrow> Voxels \<Rightarrow> Tree \<Rightarrow> (point \<Rightarrow> point) \<Rightarrow> View \<Rightarrow> nat \<times> nat
    \<Rightarrow> DepthImage \<times> NormalImage \<Rightarrow> DepthImage \<times> NormalImage" where
  "col_step u g t m r = (\<lambda>(i, j) (d, n).
     if column_open g r d i j then hit_effect u g t m r i j [0..<size_z r] (d, n) else (d, n))"

definition fill_step :: "32 word \<Rightarrow> Voxels \<Rightarrow> Tree \<Rightarrow> (point \<Rightarrow> point) \<Rightarrow> View \<Rightarrow> nat \<times> nat
    \<Rightarrow> DepthImage \<times> NormalImage \<Rightarrow> DepthImage \<times> NormalImage" where
  "fill_step u g t m r = (\<lambda>(i, j) (d, n).
     if d (pixel r i j) < Some (top_z g r)
     then (d(pixel r i j := Some (top_z g r)),
           n(pixel r i j := normal_at u g t m (pixel r i j) (top_z g r)))
     else (d, n))"

definition paired :: "32 word \<Rightarrow> Voxels \<Rightarrow> Tree \<Rightarrow> (point \<Rightarrow> point)
    \<Rightarrow> DepthImage \<times> NormalImage \<Rightarrow> DepthImage \<times> NormalImage \<Rightarrow> bool" where
  "paired u g t m a b \<longleftrightarrow>
     (\<forall>p. fst a p \<le> fst b p
        \<and> (fst b p = fst a p \<longrightarrow> snd b p = snd a p)
        \<and> (fst b p \<noteq> fst a p \<longrightarrow> (\<exists>z. fst b p = Some z \<and> snd b p = normal_at u g t m p z)))"

definition raises :: "DepthImage \<Rightarrow> DepthImage \<Rightarrow> bool" where
  "raises d d' \<longleftrightarrow> (\<exists>p z. d p < Some z \<and> d' = d(p := Some z))"

definition view_in_grid :: "Voxels \<Rightarrow> View \<Rightarrow> bool" where
  "view_in_grid g r \<longleftrightarrow>
     corner_x r + size_x r \<le> length (pts_x g) \<and> corner_y r + size_y r \<le> length (pts_y g)
     \<and> corner_z r + size_z r \<le> length (pts_z g)"

definition filled_at :: "Voxels \<Rightarrow> Tree \<Rightarrow> (point \<Rightarrow> point) \<Rightarrow> nat \<times> nat \<Rightarrow> nat \<Rightarrow> bool" where
  "filled_at g t m p k \<longleftrightarrow> tree_field t (m (pts_x g ! snd p, pts_y g ! fst p, pts_z g ! k)) < 0"

definition sound :: "Voxels \<Rightarrow> Tree \<Rightarrow> (point \<Rightarrow> point) \<Rightarrow> DepthImage \<Rightarrow> DepthImage \<Rightarrow> bool" where
  "sound g t m d d' \<longleftrightarrow>
     (\<forall>p. d' p = d p
        \<or> (fst p < length (pts_y g) \<and> snd p < length (pts_x g)
            \<and> (\<exists>k. k < length (pts_z g) \<and> filled_at g t m p k \<and> d' p = Some (pts_z g ! k))))"

definition covered :: "Voxels \<Rightarrow> Tree \<Rightarrow> (point \<Rightarrow> point) \<Rightarrow> View \<Rightarrow> DepthImage \<Rightarrow> bool" where
  "covered g t m r d \<longleftrightarrow>
     (\<forall>i j k. i < size_x r \<and> j < size_y r \<and> k < size_z r
        \<and> filled_at g t m (pixel r i j) (corner_z r + k)
        \<longrightarrow> Some (pts_z g ! (corner_z r + k)) \<le> d (pixel r i j))"

definition in_box :: "point \<Rightarrow> point \<Rightarrow> point \<Rightarrow> bool" where
  "in_box lo hi p \<longleftrightarrow>
     (case (lo, hi, p) of ((lx, ly, lz), (hx, hy, hz), (x, y, z)) \<Rightarrow>
        lx \<le> x \<and> x \<le> hx \<and> ly \<le> y \<and> y \<le> hy \<and> lz \<le> z \<and> z \<le> hz)"

definition interval_sound :: "Tree \<Rightarrow> (point \<Rightarrow> point) \<Rightarrow> bool" where
  "interval_sound t m \<longleftrightarrow>
     (\<forall>lo hi p. in_box lo hi p \<longrightarrow>
        fst (tree_interval t m lo hi) \<le> tree_field t (m p)
        \<and> tree_field t (m p) \<le> snd (tree_interval t m lo hi))"

definition centres_in_bounds :: "Voxels \<Rightarrow> bool" where
  "centres_in_bounds g \<longleftrightarrow>
     (\<forall>r i j k. view_in_grid g r \<and> i < size_x r \<and> j < size_y r \<and> k < size_z r \<longrightarrow>
        in_box (view_lower g r) (view_upper g r)
          (pts_x g ! (corner_x r + i), pts_y g ! (corner_y r + j), pts_z g ! (corner_z r + k)))"

definition column_covered :: "Voxels \<Rightarrow> Tree \<Rightarrow> (point \<Rightarrow> point) \<Rightarrow> View \<Rightarrow> DepthImage \<Rightarrow> nat \<times> nat \<Rightarrow> bool" where
  "column_covered g t m r d = (\<lambda>(i, j).
     \<forall>k. k < size_z r \<and> filled_at g t m (pixel r i j) (corner_z r + k)
        \<longrightarrow> Some (pts_z g ! (corner_z r + k)) \<le> d (pixel r i j))"

definition lit :: "DepthImage \<times> NormalImage \<Rightarrow> DepthImage \<times> NormalImage \<Rightarrow> bool" where
  "lit a b \<longleftrightarrow>
     (\<forall>p. fst a p \<le> fst b p
        \<and> (fst b p = fst a p \<longrightarrow> snd b p = snd a p)
        \<and> (fst b p \<noteq> fst a p \<longrightarrow> snd b p \<noteq> 0))"

definition tile_ok :: "Voxels \<Rightarrow> View \<Rightarrow> bool" where
  "tile_ok g r \<longleftrightarrow> view_in_grid g r \<and> corner_z r = 0 \<and> size_z r = length (pts_z g)"

definition tiles_cover :: "Voxels \<Rightarrow> View list \<Rightarrow> bool" where
  "tiles_cover g rs \<longleftrightarrow>
     (\<forall>x y. x < length (pts_x g) \<and> y < length (pts_y g) \<longrightarrow>
        (\<exists>r \<in> set rs. \<exists>i j. i < size_x r \<and> j < size_y r \<and> pixel r i j = (y, x)))"

text \<open>
  The specification of the images, in the words of the spec: the depth of a pixel is
  the maximum \<open>pz[k]\<close> over the voxel centres of its column where the field is negative,
  and minus infinity when there is none; the normal of a pixel is 0 where the depth is
  minus infinity, the constant where the depth is the last z sample, and the packed
  gradient at the surface point otherwise.
\<close>

definition column_hits :: "Voxels \<Rightarrow> Tree \<Rightarrow> (point \<Rightarrow> point) \<Rightarrow> nat \<times> nat \<Rightarrow> real list" where
  "column_hits g t m p = map (\<lambda>k. pts_z g ! k) (filter (filled_at g t m p) [0..<length (pts_z g)])"

definition column_max :: "Voxels \<Rightarrow> Tree \<Rightarrow> (point \<Rightarrow> point) \<Rightarrow> nat \<times> nat \<Rightarrow> real option" where
  "column_max g t m p =
     (if column_hits g t m p = [] then None else Some (Max (set (column_hits g t m p))))"

definition depth_spec :: "Voxels \<Rightarrow> Tree \<Rightarrow> (point \<Rightarrow> point) \<Rightarrow> DepthImage" where
  "depth_spec g t m = (\<lambda>p.
     if fst p < length (pts_y g) \<and> snd p < length (pts_x g) then column_max g t m p else None)"

definition surface_norm :: "32 word \<Rightarrow> Voxels \<Rightarrow> Tree \<Rightarrow> (point \<Rightarrow> point) \<Rightarrow> NormalImage" where
  "surface_norm u g t m = (\<lambda>p.
     case depth_spec g t m p of None \<Rightarrow> 0 | Some z \<Rightarrow> normal_at u g t m p z)"

definition norm_spec :: "32 word \<Rightarrow> Voxels \<Rightarrow> Tree \<Rightarrow> (point \<Rightarrow> point) \<Rightarrow> NormalImage" where
  "norm_spec u g t m = (\<lambda>p.
     if depth_spec g t m p = Some (last (pts_z g)) then sky else surface_norm u g t m p)"

text \<open>A small scene, used to instantiate the theorems.\<close>

definition scene_grid :: Voxels where
  "scene_grid = \<lparr>pts_x = [0, 1, 2], pts_y = [0, 1], pts_z = [0, 1, 2],
     view_lower = (\<lambda>_. (0, 0, 0)), view_upper = (\<lambda>_. (2, 2, 2))\<rparr>"

definition scene_tree :: Tree where
  "scene_tree = \<lparr>tree_field = (\<lambda>(x, y, z). if z < 3 - 2 * x then - 1 else 1),
     tree_gradient = (\<lambda>_. (0, 0, 1)),
     tree_interval = (\<lambda>m lo hi. (- 1, 1)),
     tree_residue = (\<lambda>sl k. 0)\<rparr>"

definition never :: "nat \<Rightarrow> bool" where
  "never n = False"

definition single_voxel :: Voxels where
  "single_voxel = \<lparr>pts_x = [0], pts_y = [0], pts_z = [0],
     view_lower = (\<lambda>_. (0, 0, 0)), view_upper = (\<lambda>_. (0, 0, 0))\<rparr>"

definition scene_state :: State where
  "scene_state = \<lparr>ev = new_evaluator scene_tree, depth = (\<lambda>_. None), norm = (\<lambda>_. 0), polls = 0\<rparr>"


section \<open>The normal batcher: properties\<close>

lemma run_norm: "norm (snd (run u (nr, s))) = shown u (nr, s)"
proof -
  have "fold (\<lambda>i nm. nm((ys nr ! i, xs nr ! i) := pack u (fst (derivs (count nr) (ev s)) ! i))) [0..<count nr] (norm s)
      = fold (\<lambda>i nm. nm((ys nr ! i, xs nr ! i) := pack u (tree_gradient (tree (ev s)) (slots (ev s) i)))) [0..<count nr] (norm s)"
    by (rule fold_cong) (simp_all add: derivs_def)
  then show ?thesis
    by (simp add: run_def shown_def blit_def queued_def fold_map comp_def case_prod_unfold)
qed

lemma run_frame:
  "count (fst (run u (nr, s))) = 0" "xs (fst (run u (nr, s))) = xs nr" "ys (fst (run u (nr, s))) = ys nr"
  "tree (ev (snd (run u (nr, s)))) = tree (ev s)" "matrix (ev (snd (run u (nr, s)))) = matrix (ev s)"
  "slots (ev (snd (run u (nr, s)))) = slots (ev s)" "pushes (ev (snd (run u (nr, s)))) = pushes (ev s)"
  "pops (ev (snd (run u (nr, s)))) = pops (ev s)" "depth (snd (run u (nr, s))) = depth s"
  "polls (snd (run u (nr, s))) = polls s"
  by (simp_all add: run_def derivs_def Let_def)

lemma run_results: "count nr \<le> k \<Longrightarrow> results (ev (snd (run u (nr, s)))) k = results (ev s) k"
  by (simp add: run_def derivs_def Let_def)

lemma shown_empty: "count nr = 0 \<Longrightarrow> shown u (nr, s) = norm s"
  by (simp add: shown_def blit_def queued_def)

lemma flush_norm: "norm (snd (flush u (nr, s))) = shown u (nr, s)"
  by (cases "count nr = 0") (simp_all add: flush_def run_norm shown_empty)

lemma flush_frame:
  "count (fst (flush u (nr, s))) = 0" "xs (fst (flush u (nr, s))) = xs nr" "ys (fst (flush u (nr, s))) = ys nr"
  "tree (ev (snd (flush u (nr, s)))) = tree (ev s)" "matrix (ev (snd (flush u (nr, s)))) = matrix (ev s)"
  "slots (ev (snd (flush u (nr, s)))) = slots (ev s)" "pushes (ev (snd (flush u (nr, s)))) = pushes (ev s)"
  "pops (ev (snd (flush u (nr, s)))) = pops (ev s)" "depth (snd (flush u (nr, s))) = depth s"
  "polls (snd (flush u (nr, s))) = polls s"
  by (simp_all add: flush_def run_frame)

lemma push_unfold:
  assumes "nr_inv N nr"
  shows "push N u g r i j z (nr, s) =
     Inr (let enq = (nr\<lparr>xs := (xs nr)[count nr := corner_x r + i],
                        ys := (ys nr)[count nr := corner_y r + j], count := count nr + 1\<rparr>,
                     s\<lparr>ev := set_point (pts_x g ! (corner_x r + i), pts_y g ! (corner_y r + j), z)
                                (count nr) (ev s)\<rparr>)
          in if count nr + 1 = N then run u enq else enq)"
  using assms by (simp add: push_def nr_inv_def Let_def)

lemma push_sem:
  assumes "nr_inv N nr"
  shows "\<exists>nr' s'. push N u g r i j z (nr, s) = Inr (nr', s') \<and> nr_inv N nr'
     \<and> shown u (nr', s') = (shown u (nr, s))
          (pixel r i j := pack u (tree_gradient (tree (ev s))
             (matrix (ev s) (pts_x g ! (corner_x r + i), pts_y g ! (corner_y r + j), z))))
     \<and> depth s' = depth s \<and> polls s' = polls s \<and> tree (ev s') = tree (ev s)
     \<and> matrix (ev s') = matrix (ev s) \<and> pushes (ev s') = pushes (ev s) \<and> pops (ev s') = pops (ev s)
     \<and> count nr' \<le> count nr + 1 \<and> (\<forall>k. count nr < k \<longrightarrow> results (ev s') k = results (ev s) k)"
proof -
  define p where "p = (pts_x g ! (corner_x r + i), pts_y g ! (corner_y r + j), z)"
  define nr2 where "nr2 = nr\<lparr>xs := (xs nr)[count nr := corner_x r + i],
     ys := (ys nr)[count nr := corner_y r + j], count := count nr + 1\<rparr>"
  define s1 where "s1 = s\<lparr>ev := set_point p (count nr) (ev s)\<rparr>"
  from assms have len: "length (xs nr) = N" "length (ys nr) = N" and c: "count nr < N"
    by (simp_all add: nr_inv_def)
  have push: "push N u g r i j z (nr, s) = Inr (if count nr + 1 = N then run u (nr2, s1) else (nr2, s1))"
    using len c by (simp add: push_def nr2_def s1_def p_def Let_def)
  have q: "queued nr2 (ev s1) = queued nr (ev s) @ [(pixel r i j, matrix (ev s) p)]"
    using len c by (simp add: queued_def nr2_def s1_def set_point_def pixel_def)
  have sh: "shown u (nr2, s1) = (shown u (nr, s))(pixel r i j := pack u (tree_gradient (tree (ev s)) (matrix (ev s) p)))"
    by (simp add: shown_def q blit_def) (simp add: s1_def set_point_def)
  show ?thesis
  proof (cases "count nr + 1 = N")
    case True
    obtain nr' s' where r: "run u (nr2, s1) = (nr', s')" by (cases "run u (nr2, s1)")
    from run_frame[of u nr2 s1] run_norm[of u nr2 s1] r
    have f: "count nr' = 0" "xs nr' = xs nr2" "ys nr' = ys nr2" "tree (ev s') = tree (ev s1)"
      "matrix (ev s') = matrix (ev s1)" "slots (ev s') = slots (ev s1)" "pushes (ev s') = pushes (ev s1)"
      "pops (ev s') = pops (ev s1)" "depth s' = depth s1"
      "polls s' = polls s1" "norm s' = shown u (nr2, s1)" by simp_all
    have res: "\<forall>k. count nr < k \<longrightarrow> results (ev s') k = results (ev s) k"
    proof (intro allI impI)
      fix k assume "count nr < k"
      then have "count nr2 \<le> k" by (simp add: nr2_def)
      from run_results[OF this, of u s1] r show "results (ev s') k = results (ev s) k"
        by (simp add: s1_def set_point_def)
    qed
    have "nr_inv N nr'" using f len c by (simp add: nr_inv_def nr2_def)
    moreover have "shown u (nr', s') = shown u (nr2, s1)" using f by (simp add: shown_empty)
    ultimately show ?thesis using push True r f sh res
      by (simp add: p_def) (simp add: s1_def set_point_def)
  next
    case False
    then have "nr_inv N nr2" using len c by (simp add: nr_inv_def nr2_def)
    then show ?thesis using push False sh
      by (simp add: p_def) (simp add: s1_def set_point_def nr2_def)
  qed
qed

lemma new_renderer_inv: "0 < N \<Longrightarrow> nr_inv N (new_renderer N)"
  by (simp add: nr_inv_def new_renderer_def)

text \<open>
  Claim C10. With a positive capacity \<open>N\<close>, the batcher keeps \<open>count < N\<close> (and arrays of
  \<open>N\<close> cells) across its operations: a fresh batcher satisfies it; from such a batcher
  \<^verbatim>\<open>push\<close> writes cell \<open>count\<close> of both arrays without leaving them, runs \<^verbatim>\<open>run\<close> exactly
  when the incremented count equals \<open>N\<close>, and ends with \<open>count < N\<close> again; \<^verbatim>\<open>run\<close> resets
  the count to 0; after \<^verbatim>\<open>flush\<close> the count is 0 and the assertion of the destructor holds.
\<close>

theorem normal_renderer_count_bounded:
  assumes "0 < N" and "nr_inv N nr"
  shows "nr_inv N (new_renderer N)
     \<and> count nr < length (xs nr) \<and> count nr < length (ys nr)
     \<and> (\<exists>nr' s'. push N u g r i j z (nr, s) = Inr (nr', s') \<and> nr_inv N nr'
          \<and> (nr', s') =
              (let enq = (nr\<lparr>xs := (xs nr)[count nr := corner_x r + i],
                             ys := (ys nr)[count nr := corner_y r + j], count := count nr + 1\<rparr>,
                          s\<lparr>ev := set_point (pts_x g ! (corner_x r + i), pts_y g ! (corner_y r + j), z)
                                     (count nr) (ev s)\<rparr>)
               in if count nr + 1 = N then run u enq else enq))
     \<and> count (fst (run u (nr, s))) = 0 \<and> nr_inv N (fst (run u (nr, s)))
     \<and> count (fst (flush u (nr, s))) = 0 \<and> nr_inv N (fst (flush u (nr, s)))
     \<and> destroy (fst (flush u (nr, s))) = Inr ()"
proof -
  have a: "nr_inv N (new_renderer N)" using assms(1) by (rule new_renderer_inv)
  have b: "count nr < length (xs nr) \<and> count nr < length (ys nr)"
    using assms(2) by (simp add: nr_inv_def)
  obtain nr' s' where p: "push N u g r i j z (nr, s) = Inr (nr', s')" and i: "nr_inv N nr'"
    using push_sem[OF assms(2), of u g r i j z s] by blast
  have c: "\<exists>nr' s'. push N u g r i j z (nr, s) = Inr (nr', s') \<and> nr_inv N nr'
          \<and> (nr', s') =
              (let enq = (nr\<lparr>xs := (xs nr)[count nr := corner_x r + i],
                             ys := (ys nr)[count nr := corner_y r + j], count := count nr + 1\<rparr>,
                          s\<lparr>ev := set_point (pts_x g ! (corner_x r + i), pts_y g ! (corner_y r + j), z)
                                     (count nr) (ev s)\<rparr>)
               in if count nr + 1 = N then run u enq else enq)"
    using p i push_unfold[OF assms(2), of u g r i j z s] by (intro exI[of _ nr'] exI[of _ s']) simp
  have d: "count (fst (run u (nr, s))) = 0 \<and> nr_inv N (fst (run u (nr, s)))"
    using assms by (simp add: nr_inv_def run_frame)
  have e: "count (fst (flush u (nr, s))) = 0 \<and> nr_inv N (fst (flush u (nr, s)))"
    using assms by (simp add: nr_inv_def flush_frame)
  have f: "destroy (fst (flush u (nr, s))) = Inr ()"
    by (simp add: destroy_def flush_frame)
  from a b c d e f show ?thesis by blast
qed

theorem normal_renderer_count_bounded_witness:
  "(0::nat) < 2 \<and> nr_inv 2 (new_renderer 2)
   \<and> (\<exists>nr' s'. push 2 0 scene_grid (view scene_grid) 0 0 1 (new_renderer 2, scene_state) = Inr (nr', s')
        \<and> nr_inv 2 nr')
   \<and> destroy (fst (flush 0 (new_renderer 2, scene_state))) = Inr ()"
proof -
  have h1: "(0::nat) < 2" by simp
  have h2: "nr_inv 2 (new_renderer 2)" by (simp add: nr_inv_def new_renderer_def)
  from normal_renderer_count_bounded[OF h1 h2, of 0 scene_grid "view scene_grid" 0 0 1 scene_state]
  show ?thesis using h1 h2 by blast
qed

lemma for_each_append:
  "for_each (as @ bs) f s = (case for_each as f s of Inl e \<Rightarrow> Inl e | Inr s' \<Rightarrow> for_each bs f s')"
  by (induction as arbitrary: s) (auto split: sum.splits)

lemma for_each_map: "for_each (map h as) f s = for_each as (\<lambda>a. f (h a)) s"
  by (induction as arbitrary: s) (auto split: sum.splits)

lemma for_each_product:
  "for_each as (\<lambda>i. for_each bs (f i)) s = for_each (List.product as bs) (\<lambda>(i, j). f i j) s"
  by (induction as arbitrary: s) (auto simp: for_each_append for_each_map split: sum.splits)

lemma fold_product: "fold (\<lambda>i. fold (f i) bs) as s = fold (\<lambda>(i, j). f i j) (List.product as bs) s"
  by (induction as arbitrary: s) (auto simp: fold_map comp_def)

lemma stage_column_eq:
  "stage_column g r i j (e, idx) =
     (e\<lparr>slots := (\<lambda>q. if idx \<le> q \<and> q < idx + size_z r then voxel_point g r i j (q - idx)
                       else slots e q)\<rparr>, idx + size_z r)"
proof -
  have "fold (\<lambda>k (e, index). (set_raw (vp k) index e, index + 1)) [0..<n] (e, idx) =
      (e\<lparr>slots := (\<lambda>q. if idx \<le> q \<and> q < idx + n then vp (q - idx) else slots e q)\<rparr>, idx + n)"
    for n and vp :: "nat \<Rightarrow> point"
  proof (induction n)
    case 0
    have "(\<lambda>q. if idx \<le> q \<and> q < idx then vp (q - idx) else slots e q) = slots e"
      by (auto simp: fun_eq_iff)
    then show ?case by simp
  next
    case (Suc n)
    have "set_raw (vp n) (idx + n)
            (e\<lparr>slots := (\<lambda>q. if idx \<le> q \<and> q < idx + n then vp (q - idx) else slots e q)\<rparr>)
        = e\<lparr>slots := (\<lambda>q. if idx \<le> q \<and> q < idx + Suc n then vp (q - idx) else slots e q)\<rparr>"
      by (auto simp: set_raw_def fun_eq_iff)
    with Suc show ?case by simp
  qed
  then show ?thesis by (simp add: stage_column_def)
qed

lemma stage_cols:
  assumes "fold (\<lambda>(i, j) st. if opn (i, j) then stage_column g r i j st else st) cs (e, idx) = (e', idx')"
  shows "idx' = idx + size_z r * length (filter opn cs)
     \<and> laid_out opn (size_z r) (\<lambda>(i, j). voxel_point g r i j) (slots e') idx cs
     \<and> (\<forall>q<idx. slots e' q = slots e q)
     \<and> tree e' = tree e \<and> matrix e' = matrix e \<and> pushes e' = pushes e \<and> pops e' = pops e"
  using assms
proof (induction cs arbitrary: e idx)
  case Nil
  then show ?case by simp
next
  case (Cons c cs)
  obtain i j where c: "c = (i, j)" by (cases c)
  show ?case
  proof (cases "opn c")
    case False
    with Cons.prems c have "fold (\<lambda>(i, j) st. if opn (i, j) then stage_column g r i j st else st) cs (e, idx) = (e', idx')"
      by simp
    from Cons.IH[OF this] False show ?thesis by simp
  next
    case True
    define e1 where "e1 = e\<lparr>slots := (\<lambda>q. if idx \<le> q \<and> q < idx + size_z r then voxel_point g r i j (q - idx)
                       else slots e q)\<rparr>"
    from Cons.prems c True
    have "fold (\<lambda>(i, j) st. if opn (i, j) then stage_column g r i j st else st) cs (e1, idx + size_z r) = (e', idx')"
      by (simp add: stage_column_eq e1_def)
    from Cons.IH[OF this]
    have ih: "idx' = idx + size_z r + size_z r * length (filter opn cs)"
      "laid_out opn (size_z r) (\<lambda>(i, j). voxel_point g r i j) (slots e') (idx + size_z r) cs"
      "\<forall>q<idx + size_z r. slots e' q = slots e1 q"
      "tree e' = tree e1" "matrix e' = matrix e1" "pushes e' = pushes e1" "pops e' = pops e1"
      by simp_all
    have "\<forall>k < size_z r. slots e' (idx + k) = voxel_point g r i j k"
      using ih(3) by (simp add: e1_def)
    moreover have "\<forall>q<idx. slots e' q = slots e q"
      using ih(3) by (simp add: e1_def)
    ultimately show ?thesis using ih True c by (simp add: e1_def)
  qed
qed

lemma laid_out_map:
  assumes "laid_out opn sz vp sl idx cs"
    and "\<forall>q<idx + sz * length (filter opn cs). sl' q = h (sl q)"
  shows "laid_out opn sz (\<lambda>c k. h (vp c k)) sl' idx cs"
  using assms
proof (induction cs arbitrary: idx)
  case Nil
  then show ?case by simp
next
  case (Cons c cs)
  show ?case
  proof (cases "opn c")
    case True
    with Cons.prems have lo: "\<forall>k < sz. sl (idx + k) = vp c k" "laid_out opn sz vp sl (idx + sz) cs"
      and eq: "\<forall>q<idx + sz + sz * length (filter opn cs). sl' q = h (sl q)"
      by (simp_all add: add.assoc)
    from Cons.IH[OF lo(2) eq] have "laid_out opn sz (\<lambda>c k. h (vp c k)) sl' (idx + sz) cs" .
    moreover have "\<forall>k < sz. sl' (idx + k) = h (vp c k)" using lo(1) eq by simp
    ultimately show ?thesis using True by simp
  next
    case False
    with Cons show ?thesis by simp
  qed
qed

lemma shown_depth_upd [simp]: "shown u (nr, s\<lparr>depth := d\<rparr>) = shown u (nr, s)"
  by (simp add: shown_def)

lemma scan_column_sem:
  assumes inv: "nr_inv N nr"
    and out: "\<forall>k < size_z r. results (ev s) (idx + k) = tree_field (tree (ev s)) (matrix (ev s) (voxel_point g r i j k))"
    and cnt: "count nr \<le> idx"
    and k0: "k0 \<le> size_z r"
  shows "\<exists>nr' s'. scan_column N u g r i j [k0..<size_z r] (idx + k0, nr, s) = Inr (idx + size_z r, nr', s')
     \<and> nr_inv N nr'
     \<and> (depth s', shown u (nr', s')) =
         hit_effect u g (tree (ev s)) (matrix (ev s)) r i j [k0..<size_z r] (depth s, shown u (nr, s))
     \<and> polls s' = polls s \<and> tree (ev s') = tree (ev s) \<and> matrix (ev s') = matrix (ev s)
     \<and> pushes (ev s') = pushes (ev s) \<and> pops (ev s') = pops (ev s)
     \<and> count nr' \<le> idx + size_z r
     \<and> (\<forall>q. idx + size_z r \<le> q \<longrightarrow> results (ev s') q = results (ev s) q)"
  using k0
proof (induction "size_z r - k0" arbitrary: k0)
  case 0
  then have "[k0..<size_z r] = []" "k0 = size_z r" by simp_all
  then show ?case using inv cnt by (simp add: hit_effect_def)
next
  case (Suc n)
  then have lt: "k0 < size_z r" by simp
  then have l: "[k0..<size_z r] = k0 # [Suc k0..<size_z r]" by (simp add: upt_conv_Cons)
  have o: "results (ev s) (idx + k0) = tree_field (tree (ev s)) (matrix (ev s) (voxel_point g r i j k0))"
    using out lt by simp
  define z where "z = pts_z g ! (corner_z r + (size_z r - k0 - 1))"
  show ?case
  proof (cases "results (ev s) (idx + k0) < 0")
    case neg: True
    have idx: "idx + k0 + 1 + (size_z r - k0 - 1) = idx + size_z r" using lt by simp
    show ?thesis
    proof (cases "depth s (pixel r i j) < Some z")
      case True
      define s0 where "s0 = s\<lparr>depth := (depth s)(pixel r i j := Some z)\<rparr>"
      obtain nr' s' where p: "push N u g r i j z (nr, s0) = Inr (nr', s')"
        and p': "nr_inv N nr'"
        "shown u (nr', s') = (shown u (nr, s))(pixel r i j := normal_at u g (tree (ev s)) (matrix (ev s)) (pixel r i j) z)"
        "depth s' = (depth s)(pixel r i j := Some z)" "polls s' = polls s" "tree (ev s') = tree (ev s)"
        "matrix (ev s') = matrix (ev s)" "pushes (ev s') = pushes (ev s)" "pops (ev s') = pops (ev s)"
        and c': "count nr' \<le> count nr + 1"
        and r': "\<forall>k. count nr < k \<longrightarrow> results (ev s') k = results (ev s) k"
        using push_sem[OF inv, of u g r i j z s0]
        by (auto simp: normal_at_def pixel_def s0_def)
      have "scan_column N u g r i j [k0..<size_z r] (idx + k0, nr, s) = Inr (idx + size_z r, nr', s')"
        using neg True p idx by (simp add: l z_def s0_def Let_def)
      moreover have "hit_effect u g (tree (ev s)) (matrix (ev s)) r i j [k0..<size_z r] (depth s, shown u (nr, s))
         = (depth s', shown u (nr', s'))"
        using neg True o p' by (simp add: hit_effect_def l z_def Let_def)
      moreover have "count nr' \<le> idx + size_z r" using c' cnt lt by simp
      moreover have "\<forall>q. idx + size_z r \<le> q \<longrightarrow> results (ev s') q = results (ev s) q"
        using r' cnt lt by simp
      ultimately show ?thesis using p' by simp
    next
      case False
      have "scan_column N u g r i j [k0..<size_z r] (idx + k0, nr, s) = Inr (idx + size_z r, nr, s)"
        using neg False idx by (simp add: l z_def Let_def)
      moreover have "hit_effect u g (tree (ev s)) (matrix (ev s)) r i j [k0..<size_z r] (depth s, shown u (nr, s))
         = (depth s, shown u (nr, s))"
        using neg False o by (simp add: hit_effect_def l z_def Let_def)
      ultimately show ?thesis using inv cnt by simp
    qed
  next
    case False
    from Suc have n: "n = size_z r - Suc k0" "Suc k0 \<le> size_z r" by simp_all
    from Suc.hyps(1)[OF n] obtain nr' s' where
      ih: "scan_column N u g r i j [Suc k0..<size_z r] (idx + Suc k0, nr, s) = Inr (idx + size_z r, nr', s')"
      "nr_inv N nr'"
      "(depth s', shown u (nr', s')) =
         hit_effect u g (tree (ev s)) (matrix (ev s)) r i j [Suc k0..<size_z r] (depth s, shown u (nr, s))"
      "polls s' = polls s" "tree (ev s') = tree (ev s)" "matrix (ev s') = matrix (ev s)"
      "pushes (ev s') = pushes (ev s)" "pops (ev s') = pops (ev s)"
      "count nr' \<le> idx + size_z r"
      "\<forall>q. idx + size_z r \<le> q \<longrightarrow> results (ev s') q = results (ev s) q"
      by blast
    have "scan_column N u g r i j [k0..<size_z r] (idx + k0, nr, s) = Inr (idx + size_z r, nr', s')"
      using False ih(1) by (simp add: l)
    moreover have "hit_effect u g (tree (ev s)) (matrix (ev s)) r i j [k0..<size_z r] (depth s, shown u (nr, s))
         = hit_effect u g (tree (ev s)) (matrix (ev s)) r i j [Suc k0..<size_z r] (depth s, shown u (nr, s))"
      using False o by (simp add: hit_effect_def l)
    ultimately show ?thesis using ih by simp
  qed
qed

lemma laid_out_cong:
  assumes "laid_out opn sz vp sl idx cs" and "\<forall>q. idx \<le> q \<longrightarrow> sl' q = sl q"
  shows "laid_out opn sz vp sl' idx cs"
  using assms
proof (induction cs arbitrary: idx)
  case Nil
  then show ?case by simp
next
  case (Cons c cs)
  show ?case
  proof (cases "opn c")
    case True
    with Cons.prems have lo: "\<forall>k < sz. sl (idx + k) = vp c k" "laid_out opn sz vp sl (idx + sz) cs"
      by simp_all
    have "\<forall>q. idx + sz \<le> q \<longrightarrow> sl' q = sl q" using Cons.prems(2) by simp
    from Cons.IH[OF lo(2) this] have "laid_out opn sz vp sl' (idx + sz) cs" .
    moreover have "\<forall>k < sz. sl' (idx + k) = vp c k" using lo(1) Cons.prems(2) by simp
    ultimately show ?thesis using True by simp
  next
    case False
    with Cons show ?thesis by simp
  qed
qed

lemma col_step_other:
  "p \<noteq> pixel r i j \<Longrightarrow> fst (col_step u g t m r (i, j) (d, n)) p = d p"
  "p \<noteq> pixel r i j \<Longrightarrow> snd (col_step u g t m r (i, j) (d, n)) p = n p"
  by (simp_all add: col_step_def hit_effect_def Let_def split: option.splits)

lemma unflatten_cols:
  assumes "nr_inv N nr"
    and "distinct (map (\<lambda>(i, j). pixel r i j) cs)"
    and "\<forall>(i, j) \<in> set cs. depth s (pixel r i j) = d0 (pixel r i j)"
    and "laid_out (\<lambda>(i, j). column_open g r d0 i j) (size_z r)
           (\<lambda>(i, j) k. tree_field t (m (voxel_point g r i j k))) (results (ev s)) idx cs"
    and "tree (ev s) = t" and "matrix (ev s) = m"
    and "count nr \<le> idx"
  shows "\<exists>idx' nr' s'.
       for_each cs (\<lambda>(i, j) st. if column_open g r (depth (snd (snd st))) i j
                                then scan_column N u g r i j [0..<size_z r] st else Inr st)
         (idx, nr, s) = Inr (idx', nr', s')
     \<and> nr_inv N nr'
     \<and> (depth s', shown u (nr', s')) = fold (col_step u g t m r) cs (depth s, shown u (nr, s))
     \<and> polls s' = polls s \<and> tree (ev s') = t \<and> matrix (ev s') = m
     \<and> pushes (ev s') = pushes (ev s) \<and> pops (ev s') = pops (ev s)"
  using assms
proof (induction cs arbitrary: idx nr s)
  case Nil
  then show ?case by simp
next
  case (Cons c cs)
  obtain i j where c: "c = (i, j)" by (cases c)
  let ?body = "\<lambda>(i, j) st. if column_open g r (depth (snd (snd st))) i j
                                then scan_column N u g r i j [0..<size_z r] st else Inr st"
  from Cons.prems(2) c have dist: "distinct (map (\<lambda>(i, j). pixel r i j) cs)"
    and notin: "\<forall>(i', j') \<in> set cs. pixel r i' j' \<noteq> pixel r i j" by (auto simp: image_iff)
  from Cons.prems(3) c have same: "depth s (pixel r i j) = d0 (pixel r i j)"
    and rest: "\<forall>(i, j) \<in> set cs. depth s (pixel r i j) = d0 (pixel r i j)" by auto
  have opn: "column_open g r (depth s) i j = column_open g r d0 i j"
    using same by (simp add: column_open_def)
  show ?case
  proof (cases "column_open g r d0 i j")
    case False
    with Cons.prems(4) c have lo: "laid_out (\<lambda>(i, j). column_open g r d0 i j) (size_z r)
           (\<lambda>(i, j) k. tree_field t (m (voxel_point g r i j k))) (results (ev s)) idx cs" by simp
    from Cons.IH[OF Cons.prems(1) dist rest lo Cons.prems(5,6,7)] False opn c
    show ?thesis by (simp add: col_step_def)
  next
    case True
    with Cons.prems(4) c have o: "\<forall>k < size_z r. results (ev s) (idx + k) = tree_field t (m (voxel_point g r i j k))"
      and lo: "laid_out (\<lambda>(i, j). column_open g r d0 i j) (size_z r)
           (\<lambda>(i, j) k. tree_field t (m (voxel_point g r i j k))) (results (ev s)) (idx + size_z r) cs"
      by simp_all
    from o Cons.prems(5,6)
    have o': "\<forall>k < size_z r. results (ev s) (idx + k) = tree_field (tree (ev s)) (matrix (ev s) (voxel_point g r i j k))"
      by simp
    from scan_column_sem[OF Cons.prems(1) o' Cons.prems(7), of 0 u] Cons.prems(5,6)
    obtain nr1 s1 where
      sc: "scan_column N u g r i j [0..<size_z r] (idx, nr, s) = Inr (idx + size_z r, nr1, s1)"
      and inv1: "nr_inv N nr1"
      and eff: "(depth s1, shown u (nr1, s1)) = hit_effect u g t m r i j [0..<size_z r] (depth s, shown u (nr, s))"
      and fr: "polls s1 = polls s" "tree (ev s1) = t" "matrix (ev s1) = m"
        "pushes (ev s1) = pushes (ev s)" "pops (ev s1) = pops (ev s)"
      and cnt1: "count nr1 \<le> idx + size_z r"
      and res1: "\<forall>q. idx + size_z r \<le> q \<longrightarrow> results (ev s1) q = results (ev s) q"
      by auto
    have lo1: "laid_out (\<lambda>(i, j). column_open g r d0 i j) (size_z r)
           (\<lambda>(i, j) k. tree_field t (m (voxel_point g r i j k))) (results (ev s1)) (idx + size_z r) cs"
      using lo res1 by (rule laid_out_cong)
    have step: "col_step u g t m r (i, j) (depth s, shown u (nr, s)) = (depth s1, shown u (nr1, s1))"
      using True opn eff by (simp add: col_step_def)
    have rest1: "\<forall>(i, j) \<in> set cs. depth s1 (pixel r i j) = d0 (pixel r i j)"
    proof (clarify)
      fix i' j' assume in_cs: "(i', j') \<in> set cs"
      with notin have ne: "pixel r i' j' \<noteq> pixel r i j" by auto
      have "depth s1 (pixel r i' j') = depth s (pixel r i' j')"
        using col_step_other(1)[OF ne, of u g t m "depth s" "shown u (nr, s)"] step by simp
      with rest in_cs show "depth s1 (pixel r i' j') = d0 (pixel r i' j')" by auto
    qed
    from Cons.IH[OF inv1 dist rest1 lo1 fr(2,3) cnt1] obtain idx' nr' s' where
      ih: "for_each cs ?body (idx + size_z r, nr1, s1) = Inr (idx', nr', s')" "nr_inv N nr'"
      "(depth s', shown u (nr', s')) = fold (col_step u g t m r) cs (depth s1, shown u (nr1, s1))"
      "polls s' = polls s1" "tree (ev s') = t" "matrix (ev s') = m"
      "pushes (ev s') = pushes (ev s1)" "pops (ev s') = pops (ev s1)"
      by blast
    have "for_each (c # cs) ?body (idx, nr, s) = Inr (idx', nr', s')"
      using True opn sc ih(1) c by simp
    then show ?thesis using ih fr step c by simp
  qed
qed

lemma pixel_inj: "pixel r i j = pixel r i' j' \<longleftrightarrow> i = i' \<and> j = j'"
  by (auto simp: pixel_def)

lemma distinct_columns: "distinct (map (\<lambda>(i, j). pixel r i j) (columns r))"
  by (auto simp: distinct_map columns_def distinct_product inj_on_def pixel_inj)

lemma pixels_sem:
  assumes "0 < N"
  shows "\<exists>s'. pixels N u g r s = Inr s'
     \<and> (depth s', norm s') = fold (col_step u g (tree (ev s)) (matrix (ev s)) r) (columns r) (depth s, norm s)
     \<and> polls s' = polls s \<and> tree (ev s') = tree (ev s) \<and> matrix (ev s') = matrix (ev s)
     \<and> pushes (ev s') = pushes (ev s) \<and> pops (ev s') = pops (ev s)"
proof -
  define t where "t = tree (ev s)"
  define m where "m = matrix (ev s)"
  let ?opn = "\<lambda>(i, j). column_open g r (depth s) i j"
  obtain e1 index where st: "stage g r (depth s) (ev s, 0) = (e1, index)"
    by (cases "stage g r (depth s) (ev s, 0)")
  have "stage g r (depth s) (ev s, 0)
      = fold (\<lambda>(i, j) st. if ?opn (i, j) then stage_column g r i j st else st) (columns r) (ev s, 0)"
    by (simp add: stage_def columns_def fold_product)
  with st have "fold (\<lambda>(i, j) st. if ?opn (i, j) then stage_column g r i j st else st) (columns r) (ev s, 0) = (e1, index)"
    by simp
  from stage_cols[OF this]
  have index: "index = size_z r * length (filter ?opn (columns r))"
    and lo: "laid_out ?opn (size_z r) (\<lambda>(i, j). voxel_point g r i j) (slots e1) 0 (columns r)"
    and fr1: "tree e1 = t" "matrix e1 = m" "pushes e1 = pushes (ev s)" "pops e1 = pops (ev s)"
    by (simp_all add: t_def m_def)
  define e2 where "e2 = apply_transform index e1"
  define e3 where "e3 = values_of index e2"
  have fr2: "tree e3 = t" "matrix e3 = m" "pushes e3 = pushes (ev s)" "pops e3 = pops (ev s)"
    using fr1 by (simp_all add: e3_def values_of_def e2_def apply_transform_def)
  have outq: "\<forall>q < 0 + size_z r * length (filter ?opn (columns r)). results e3 q = tree_field t (m (slots e1 q))"
    using index fr1 by (simp add: e3_def values_of_def e2_def apply_transform_def)
  have lo2: "laid_out ?opn (size_z r) (\<lambda>c k. tree_field t (m ((\<lambda>(i, j). voxel_point g r i j) c k)))
      (results e3) 0 (columns r)"
    using laid_out_map[OF lo, of "results e3" "\<lambda>p. tree_field t (m p)"] outq by simp
  define s2 where "s2 = s\<lparr>ev := e3\<rparr>"
  have lo3: "laid_out ?opn (size_z r) (\<lambda>(i, j) k. tree_field t (m (voxel_point g r i j k)))
      (results (ev s2)) 0 (columns r)"
    using lo2 by (simp add: case_prod_unfold s2_def)
  have c0: "count (new_renderer N) \<le> 0" by (simp add: new_renderer_def)
  have fr3: "tree (ev s2) = t" "matrix (ev s2) = m" using fr2 by (simp_all add: s2_def)
  have "\<forall>(i, j) \<in> set (columns r). depth s2 (pixel r i j) = depth s (pixel r i j)"
    by (simp add: s2_def)
  from unflatten_cols[OF new_renderer_inv[OF assms] distinct_columns this lo3 fr3 c0, of u]
  obtain idx' nr' s' where
    un: "for_each (columns r) (\<lambda>(i, j) st. if column_open g r (depth (snd (snd st))) i j
                                then scan_column N u g r i j [0..<size_z r] st else Inr st)
         (0, new_renderer N, s2) = Inr (idx', nr', s')"
    and post: "nr_inv N nr'"
      "(depth s', shown u (nr', s')) = fold (col_step u g t m r) (columns r) (depth s2, shown u (new_renderer N, s2))"
      "polls s' = polls s2" "tree (ev s') = t" "matrix (ev s') = m"
      "pushes (ev s') = pushes (ev s2)" "pops (ev s') = pops (ev s2)"
    by blast
  have un': "unflatten N u g r (0, new_renderer N, s2) = Inr (idx', nr', s')"
    using un by (simp add: unflatten_def columns_def for_each_product)
  obtain nr'' s'' where fl: "flush u (nr', s') = (nr'', s'')" by (cases "flush u (nr', s')")
  from flush_frame[of u nr' s'] flush_norm[of u nr' s'] fl
  have f: "count nr'' = 0" "tree (ev s'') = tree (ev s')" "matrix (ev s'') = matrix (ev s')"
    "pushes (ev s'') = pushes (ev s')" "pops (ev s'') = pops (ev s')"
    "depth s'' = depth s'" "polls s'' = polls s'"
    "norm s'' = shown u (nr', s')" by simp_all
  have "pixels N u g r s = Inr s''"
    using st un' fl f(1) by (simp add: pixels_def e2_def e3_def s2_def destroy_def)
  moreover have "shown u (new_renderer N, s2) = norm s"
    by (simp add: shown_empty new_renderer_def s2_def)
  ultimately show ?thesis using post f fr2 by (simp add: s2_def t_def m_def)
qed

lemma fill_cols:
  assumes "nr_inv N nr" and "tree (ev s) = t" and "matrix (ev s) = m"
  shows "\<exists>nr' s'.
       for_each cs (\<lambda>(i, j) (nr, s).
           if depth s (pixel r i j) < Some (top_z g r)
           then push N u g r i j (top_z g r) (nr, s\<lparr>depth := (depth s)(pixel r i j := Some (top_z g r))\<rparr>)
           else Inr (nr, s))
         (nr, s) = Inr (nr', s')
     \<and> nr_inv N nr'
     \<and> (depth s', shown u (nr', s')) = fold (fill_step u g t m r) cs (depth s, shown u (nr, s))
     \<and> polls s' = polls s \<and> tree (ev s') = t \<and> matrix (ev s') = m
     \<and> pushes (ev s') = pushes (ev s) \<and> pops (ev s') = pops (ev s)"
  using assms
proof (induction cs arbitrary: nr s)
  case Nil
  then show ?case by simp
next
  case (Cons c cs)
  obtain i j where c: "c = (i, j)" by (cases c)
  let ?body = "\<lambda>(i, j) (nr, s).
           if depth s (pixel r i j) < Some (top_z g r)
           then push N u g r i j (top_z g r) (nr, s\<lparr>depth := (depth s)(pixel r i j := Some (top_z g r))\<rparr>)
           else Inr (nr, s)"
  show ?case
  proof (cases "depth s (pixel r i j) < Some (top_z g r)")
    case False
    from Cons.IH[OF Cons.prems] False c show ?thesis by (simp add: fill_step_def)
  next
    case True
    obtain nr1 s1 where p: "push N u g r i j (top_z g r) (nr, s\<lparr>depth := (depth s)(pixel r i j := Some (top_z g r))\<rparr>) = Inr (nr1, s1)"
      and p': "nr_inv N nr1"
        "shown u (nr1, s1) = (shown u (nr, s))(pixel r i j := normal_at u g t m (pixel r i j) (top_z g r))"
        "depth s1 = (depth s)(pixel r i j := Some (top_z g r))" "polls s1 = polls s" "tree (ev s1) = t"
        "matrix (ev s1) = m" "pushes (ev s1) = pushes (ev s)" "pops (ev s1) = pops (ev s)"
      using push_sem[OF Cons.prems(1), of u g r i j "top_z g r" "s\<lparr>depth := (depth s)(pixel r i j := Some (top_z g r))\<rparr>"]
        Cons.prems(2,3)
      by (auto simp: normal_at_def pixel_def)
    have step: "fill_step u g t m r (i, j) (depth s, shown u (nr, s)) = (depth s1, shown u (nr1, s1))"
      using True p' by (simp add: fill_step_def)
    from Cons.IH[OF p'(1) p'(5,6)] obtain nr' s' where
      ih: "for_each cs ?body (nr1, s1) = Inr (nr', s')" "nr_inv N nr'"
      "(depth s', shown u (nr', s')) = fold (fill_step u g t m r) cs (depth s1, shown u (nr1, s1))"
      "polls s' = polls s1" "tree (ev s') = t" "matrix (ev s') = m"
      "pushes (ev s') = pushes (ev s1)" "pops (ev s') = pops (ev s1)"
      by blast
    have "for_each (c # cs) ?body (nr, s) = Inr (nr', s')"
      using True p ih(1) c by simp
    then show ?thesis using ih p' step c by simp
  qed
qed

lemma fill_sem:
  assumes "0 < N"
  shows "\<exists>s'. fill N u g r s = Inr s'
     \<and> (depth s', norm s') = fold (fill_step u g (tree (ev s)) (matrix (ev s)) r) (columns r) (depth s, norm s)
     \<and> polls s' = polls s \<and> tree (ev s') = tree (ev s) \<and> matrix (ev s') = matrix (ev s)
     \<and> pushes (ev s') = pushes (ev s) \<and> pops (ev s') = pops (ev s)"
proof -
  from fill_cols[where s = s and t = "tree (ev s)" and m = "matrix (ev s)" and cs = "columns r"
      and u = u and g = g and r = r, OF new_renderer_inv[OF assms] refl refl]
  obtain nr' s' where
    un: "for_each (columns r) (\<lambda>(i, j) (nr, s).
           if depth s (pixel r i j) < Some (top_z g r)
           then push N u g r i j (top_z g r) (nr, s\<lparr>depth := (depth s)(pixel r i j := Some (top_z g r))\<rparr>)
           else Inr (nr, s))
         (new_renderer N, s) = Inr (nr', s')"
    and post: "nr_inv N nr'"
      "(depth s', shown u (nr', s')) = fold (fill_step u g (tree (ev s)) (matrix (ev s)) r) (columns r) (depth s, shown u (new_renderer N, s))"
      "polls s' = polls s" "tree (ev s') = tree (ev s)" "matrix (ev s') = matrix (ev s)"
      "pushes (ev s') = pushes (ev s)" "pops (ev s') = pops (ev s)"
    by blast
  obtain nr'' s'' where fl: "flush u (nr', s') = (nr'', s'')" by (cases "flush u (nr', s')")
  from flush_frame[of u nr' s'] flush_norm[of u nr' s'] fl
  have f: "count nr'' = 0" "tree (ev s'') = tree (ev s')" "matrix (ev s'') = matrix (ev s')"
    "pushes (ev s'') = pushes (ev s')" "pops (ev s'') = pops (ev s')"
    "depth s'' = depth s'" "polls s'' = polls s'"
    "norm s'' = shown u (nr', s')" by simp_all
  have "fill N u g r s = Inr s''"
    using un fl f(1) by (simp add: fill_def columns_def for_each_product destroy_def Let_def)
  moreover have "shown u (new_renderer N, s) = norm s"
    by (simp add: shown_empty new_renderer_def)
  ultimately show ?thesis using post f by simp
qed

lemma split_smaller:
  assumes "split r = Inr (a, b)" and "0 < voxels r"
  shows "voxels a < voxels r" "voxels b < voxels r"
proof -
  from assms(2) have pos: "0 < size_x r" "0 < size_y r" "0 < size_z r"
    by (simp_all add: voxels_def)
  from assms(1) consider
    (X) "2 \<le> size_x r" "a = r\<lparr>size_x := size_x r div 2\<rparr>"
        "b = r\<lparr>corner_x := corner_x r + size_x r div 2, size_x := size_x r - size_x r div 2\<rparr>"
  | (Y) "2 \<le> size_y r" "a = r\<lparr>size_y := size_y r div 2\<rparr>"
        "b = r\<lparr>corner_y := corner_y r + size_y r div 2, size_y := size_y r - size_y r div 2\<rparr>"
  | (Z) "2 \<le> size_z r" "a = r\<lparr>size_z := size_z r div 2\<rparr>"
        "b = r\<lparr>corner_z := corner_z r + size_z r div 2, size_z := size_z r - size_z r div 2\<rparr>"
    by (auto simp: split_def split_x_def split_y_def split_z_def split: if_splits)
  then have "voxels a < voxels r \<and> voxels b < voxels r"
  proof cases
    case X
    then have "size_x r div 2 < size_x r" "size_x r - size_x r div 2 < size_x r" by auto
    then show ?thesis using pos X by (simp add: voxels_def)
  next
    case Y
    then have "size_y r div 2 < size_y r" "size_y r - size_y r div 2 < size_y r" by auto
    then show ?thesis using pos Y by (simp add: voxels_def)
  next
    case Z
    then have "size_z r div 2 < size_z r" "size_z r - size_z r div 2 < size_z r" by auto
    then show ?thesis using pos Z by (simp add: voxels_def)
  qed
  then show "voxels a < voxels r" "voxels b < voxels r" by simp_all
qed

lemma split_defined:
  assumes "1 < voxels r"
  shows "\<exists>a b. split r = Inr (a, b)"
proof -
  have "2 \<le> size_x r \<or> 2 \<le> size_y r \<or> 2 \<le> size_z r"
  proof (rule ccontr)
    assume "\<not> ?thesis"
    then have "size_x r \<le> 1" "size_y r \<le> 1" "size_z r \<le> 1" by auto
    then have "size_x r * size_y r * size_z r \<le> 1 * 1 * 1"
      by (intro mult_le_mono) 
    with assms show False by (simp add: voxels_def)
  qed
  then show ?thesis
    by (auto simp: split_def split_x_def split_y_def split_z_def)
qed

lemma recurse_cases [consumes 1, case_names aborted occluded leaf filled outside descend]:
  assumes "recurse N u g abort r s0 = Inr (b, s')"
  obtains
    (aborted) "abort (polls s0)" "\<not> b" "s' = s0\<lparr>polls := polls s0 + 1\<rparr>"
  | (occluded) "\<not> abort (polls s0)" "occluded g r (depth s0)" "b" "s' = s0\<lparr>polls := polls s0 + 1\<rparr>"
  | (leaf) "\<not> abort (polls s0)" "\<not> occluded g r (depth s0)" "voxels r \<le> N" "b"
      "pixels N u g r (s0\<lparr>polls := polls s0 + 1\<rparr>) = Inr s'"
  | (filled) "\<not> abort (polls s0)" "\<not> occluded g r (depth s0)" "\<not> voxels r \<le> N"
      "snd (eval_interval (view_lower g r) (view_upper g r) (ev s0)) < 0" "b"
      "fill N u g r (s0\<lparr>polls := polls s0 + 1\<rparr>) = Inr s'"
  | (outside) "\<not> abort (polls s0)" "\<not> occluded g r (depth s0)" "\<not> voxels r \<le> N"
      "\<not> snd (eval_interval (view_lower g r) (view_upper g r) (ev s0)) < 0"
      "\<not> fst (eval_interval (view_lower g r) (view_upper g r) (ev s0)) \<le> 0" "b"
      "s' = s0\<lparr>polls := polls s0 + 1\<rparr>"
  | (descend) first second b2 s2 where "\<not> abort (polls s0)" "\<not> occluded g r (depth s0)" "\<not> voxels r \<le> N"
      "\<not> snd (eval_interval (view_lower g r) (view_upper g r) (ev s0)) < 0"
      "fst (eval_interval (view_lower g r) (view_upper g r) (ev s0)) \<le> 0"
      "split r = Inr (first, second)"
      "recurse N u g abort second (s0\<lparr>polls := polls s0 + 1, ev := push_ev (ev s0)\<rparr>) = Inr (b2, s2)"
      "b2 \<longrightarrow> (\<exists>s1. recurse N u g abort first s2 = Inr (b, s1) \<and> s' = s1\<lparr>ev := pop_ev (ev s1)\<rparr>)"
      "\<not> b2 \<longrightarrow> \<not> b \<and> s' = s2\<lparr>ev := pop_ev (ev s2)\<rparr>"
proof -
  obtain lower upper where iv: "eval_interval (view_lower g r) (view_upper g r) (ev s0) = (lower, upper)"
    by (cases "eval_interval (view_lower g r) (view_upper g r) (ev s0)")
  from assms have "recurse N u g abort r s0 = Inr (b, s')" .
  then show thesis
    apply (subst (asm) recurse.simps)
    apply (simp only: Let_def)
    apply (auto simp: iv split: if_splits sum.splits prod.splits intro: that)
    done
qed

lemma paired_refl: "paired u g t m a a"
  by (simp add: paired_def)

lemma paired_trans:
  assumes "paired u g t m a b" and "paired u g t m b c"
  shows "paired u g t m a c"
  unfolding paired_def
proof (intro allI conjI impI)
  fix p
  from assms(1) have ab: "fst a p \<le> fst b p" "fst b p = fst a p \<longrightarrow> snd b p = snd a p"
    "fst b p \<noteq> fst a p \<longrightarrow> (\<exists>z. fst b p = Some z \<and> snd b p = normal_at u g t m p z)"
    unfolding paired_def by blast+
  from assms(2) have bc: "fst b p \<le> fst c p" "fst c p = fst b p \<longrightarrow> snd c p = snd b p"
    "fst c p \<noteq> fst b p \<longrightarrow> (\<exists>z. fst c p = Some z \<and> snd c p = normal_at u g t m p z)"
    unfolding paired_def by blast+
  from ab(1) bc(1) show "fst a p \<le> fst c p" by simp
  {
    assume eq: "fst c p = fst a p"
    with ab(1) bc(1) have "fst b p = fst a p" "fst c p = fst b p" by simp_all
    with ab(2) bc(2) show "snd c p = snd a p" by simp
  }
  {
    assume ne: "fst c p \<noteq> fst a p"
    show "\<exists>z. fst c p = Some z \<and> snd c p = normal_at u g t m p z"
    proof (cases "fst c p = fst b p")
      case True
      with ne have "fst b p \<noteq> fst a p" by simp
      with ab(3) obtain z where "fst b p = Some z" "snd b p = normal_at u g t m p z"
        by blast
      moreover from True bc(2) have "snd c p = snd b p" by simp
      ultimately show ?thesis using True by simp
    next
      case False
      with bc(3) show ?thesis by simp
    qed
  }
qed

lemma paired_fold:
  assumes "\<And>c a. paired u g t m a (f c a)"
  shows "paired u g t m a (fold f cs a)"
proof (induction cs arbitrary: a)
  case Nil
  show ?case by (simp add: paired_refl)
next
  case (Cons c cs)
  have "paired u g t m a (f c a)" by (rule assms)
  moreover have "paired u g t m (f c a) (fold f cs (f c a))" by (rule Cons.IH)
  ultimately show ?case by (auto intro: paired_trans)
qed

lemma paired_write:
  assumes "d p < Some z"
  shows "paired u g t m (d, n) (d(p := Some z), n(p := normal_at u g t m p z))"
  using assms by (auto simp: paired_def)

lemma col_step_paired: "paired u g t m a (col_step u g t m r c a)"
proof -
  obtain i j where c: "c = (i, j)" by (cases c)
  obtain d n where a: "a = (d, n)" by (cases a)
  show ?thesis
    by (auto simp: c a col_step_def hit_effect_def Let_def paired_refl paired_write split: option.splits)
qed

lemma fill_step_paired: "paired u g t m a (fill_step u g t m r c a)"
proof -
  obtain i j where c: "c = (i, j)" by (cases c)
  obtain d n where a: "a = (d, n)" by (cases a)
  show ?thesis
    by (auto simp: c a fill_step_def paired_refl paired_write)
qed

lemma pixels_paired:
  assumes "0 < N" and "pixels N u g r s = Inr s'"
  shows "paired u g (tree (ev s)) (matrix (ev s)) (depth s, norm s) (depth s', norm s')"
  using pixels_sem[OF assms(1), of u g r s] assms(2)
  by (auto simp: paired_fold col_step_paired)

lemma fill_paired:
  assumes "0 < N" and "fill N u g r s = Inr s'"
  shows "paired u g (tree (ev s)) (matrix (ev s)) (depth s, norm s) (depth s', norm s')"
  using fill_sem[OF assms(1), of u g r s] assms(2)
  by (auto simp: paired_fold fill_step_paired)

lemma pixels_frame:
  assumes "0 < N" and "pixels N u g r s = Inr s'"
  shows "polls s' = polls s" "tree (ev s') = tree (ev s)" "matrix (ev s') = matrix (ev s)"
    "pushes (ev s') = pushes (ev s)" "pops (ev s') = pops (ev s)"
  using pixels_sem[OF assms(1), of u g r s] assms(2) by auto

lemma fill_frame:
  assumes "0 < N" and "fill N u g r s = Inr s'"
  shows "polls s' = polls s" "tree (ev s') = tree (ev s)" "matrix (ev s') = matrix (ev s)"
    "pushes (ev s') = pushes (ev s)" "pops (ev s') = pops (ev s)"
  using fill_sem[OF assms(1), of u g r s] assms(2) by auto

lemma recurse_total:
  assumes "0 < N"
  shows "\<exists>b s'. recurse N u g abort r s = Inr (b, s')"
proof (induction "voxels r" arbitrary: r s rule: less_induct)
  case less
  let ?s1 = "s\<lparr>polls := Suc (polls s)\<rparr>"
  obtain lower upper where iv: "eval_interval (view_lower g r) (view_upper g r) (ev s) = (lower, upper)"
    by (cases "eval_interval (view_lower g r) (view_upper g r) (ev s)")
  from pixels_sem[OF assms, of u g r ?s1] obtain sp where px: "pixels N u g r ?s1 = Inr sp" by blast
  from fill_sem[OF assms, of u g r ?s1] obtain sf where fl: "fill N u g r ?s1 = Inr sf" by blast
  show ?case
  proof (cases "voxels r \<le> N")
    case True
    then show ?thesis
      by (subst recurse.simps) (auto simp: Let_def px)
  next
    case False
    with assms have big: "1 < voxels r" by simp
    then obtain first second where sp: "split r = Inr (first, second)"
      using split_defined by blast
    from split_smaller[OF sp] big have sm: "voxels first < voxels r" "voxels second < voxels r" by simp_all
    from less[OF sm(2)] obtain b2 s2 where
      r2: "recurse N u g abort second (s\<lparr>polls := Suc (polls s), ev := push_ev (ev s)\<rparr>) = Inr (b2, s2)" by blast
    from less[OF sm(1)] obtain b1 s3 where
      r1: "recurse N u g abort first s2 = Inr (b1, s3)" by blast
    from False show ?thesis
      by (subst recurse.simps) (auto simp: Let_def fl iv sp r2 r1)
  qed
qed

lemma recurse_frame:
  assumes "0 < N" and "recurse N u g abort r s = Inr (b, s')"
  shows "tree (ev s') = tree (ev s) \<and> matrix (ev s') = matrix (ev s)"
  using assms(2)
proof (induction "voxels r" arbitrary: r s b s' rule: less_induct)
  case less
  from less.prems show ?case
  proof (cases rule: recurse_cases)
    case (descend first second b2 s2)
    from split_smaller[OF descend(6)] descend(3)
    have sm: "voxels first < voxels r" "voxels second < voxels r" by simp_all
    from less.hyps[OF sm(2) descend(7)]
    have f2: "tree (ev s2) = tree (ev s)" "matrix (ev s2) = matrix (ev s)" by (simp_all add: push_ev_def)
    show ?thesis
    proof (cases b2)
      case True
      with descend(8) obtain s1 where r1: "recurse N u g abort first s2 = Inr (b, s1)"
        and s': "s' = s1\<lparr>ev := pop_ev (ev s1)\<rparr>" by blast
      from less.hyps[OF sm(1) r1] f2 s' show ?thesis by (simp add: pop_ev_def)
    next
      case False
      with descend(9) f2 show ?thesis by (simp add: pop_ev_def)
    qed
  qed (simp_all add: pixels_frame[OF assms(1)] fill_frame[OF assms(1)])
qed

lemma recurse_paired:
  assumes "0 < N" and "recurse N u g abort r s = Inr (b, s')"
    and "tree (ev s) = t" and "matrix (ev s) = m"
  shows "paired u g t m (depth s, norm s) (depth s', norm s')"
  using assms(2-)
proof (induction "voxels r" arbitrary: r s b s' rule: less_induct)
  case less
  from less.prems(1) show ?case
  proof (cases rule: recurse_cases)
    case aborted
    then show ?thesis by (simp add: paired_refl)
  next
    case occluded
    then show ?thesis by (simp add: paired_refl)
  next
    case leaf
    from pixels_paired[OF assms(1) leaf(5)] less.prems show ?thesis by simp
  next
    case filled
    from fill_paired[OF assms(1) filled(6)] less.prems show ?thesis by simp
  next
    case outside
    then show ?thesis by (simp add: paired_refl)
  next
    case (descend first second b2 s2)
    from split_smaller[OF descend(6)] descend(3)
    have sm: "voxels first < voxels r" "voxels second < voxels r" by simp_all
    from less.hyps[OF sm(2) descend(7)] less.prems
    have p2: "paired u g t m (depth s, norm s) (depth s2, norm s2)" by (simp add: push_ev_def)
    from recurse_frame[OF assms(1) descend(7)] less.prems
    have f2: "tree (ev s2) = t" "matrix (ev s2) = m" by (simp_all add: push_ev_def)
    show ?thesis
    proof (cases b2)
      case True
      with descend(8) obtain s1 where r1: "recurse N u g abort first s2 = Inr (b, s1)"
        and s': "s' = s1\<lparr>ev := pop_ev (ev s1)\<rparr>" by blast
      from less.hyps[OF sm(1) r1 f2] have "paired u g t m (depth s2, norm s2) (depth s1, norm s1)" .
      with p2 s' show ?thesis by (auto intro: paired_trans)
    next
      case False
      with descend(9) p2 show ?thesis by simp
    qed
  qed
qed

lemma recurse_balance:
  assumes "0 < N" and "recurse N u g abort r s = Inr (b, s')"
  shows "pushes (ev s') + pops (ev s) = pushes (ev s) + pops (ev s')
     \<and> pushes (ev s) \<le> pushes (ev s') \<and> pops (ev s) \<le> pops (ev s')"
  using assms(2)
proof (induction "voxels r" arbitrary: r s b s' rule: less_induct)
  case less
  from less.prems show ?case
  proof (cases rule: recurse_cases)
    case (descend first second b2 s2)
    from split_smaller[OF descend(6)] descend(3)
    have sm: "voxels first < voxels r" "voxels second < voxels r" by simp_all
    from less.hyps[OF sm(2) descend(7)]
    have f2: "pushes (ev s2) + pops (ev s) = Suc (pushes (ev s)) + pops (ev s2)"
      "Suc (pushes (ev s)) \<le> pushes (ev s2)" "pops (ev s) \<le> pops (ev s2)"
      by (simp_all add: push_ev_def)
    show ?thesis
    proof (cases b2)
      case True
      with descend(8) obtain s1 where r1: "recurse N u g abort first s2 = Inr (b, s1)"
        and s': "s' = s1\<lparr>ev := pop_ev (ev s1)\<rparr>" by blast
      from less.hyps[OF sm(1) r1] f2 s' show ?thesis by (simp add: pop_ev_def)
    next
      case False
      with descend(9) f2 show ?thesis by (simp add: pop_ev_def)
    qed
  qed (simp_all add: pixels_frame[OF assms(1)] fill_frame[OF assms(1)])
qed

text \<open>
  Claim C2. With a positive batch capacity, every call of \<^verbatim>\<open>recurse\<close> returns, finished or
  aborted, whatever the abort flag does during the call, and on return the number of
  \<^verbatim>\<open>push\<close> calls made on the evaluator equals the number of \<^verbatim>\<open>pop\<close> calls: the depth of
  the activity stack is what it was on entry.
\<close>

theorem recurse_push_pop_balanced:
  assumes "0 < N"
  shows "\<exists>b s'. recurse N u g abort r s = Inr (b, s')
     \<and> pushes (ev s') - pushes (ev s) = pops (ev s') - pops (ev s)
     \<and> stack_depth (ev s') = stack_depth (ev s)"
proof -
  from recurse_total[OF assms, of u g abort r s]
  obtain b s' where r: "recurse N u g abort r s = Inr (b, s')" by blast
  from recurse_balance[OF assms r]
  have "pushes (ev s') - pushes (ev s) = pops (ev s') - pops (ev s)"
    "stack_depth (ev s') = stack_depth (ev s)"
    by (simp_all add: stack_depth_def) linarith+
  with r show ?thesis by blast
qed

theorem recurse_push_pop_balanced_witness:
  "(0::nat) < 1
   \<and> (\<exists>b s'. recurse 1 0 scene_grid (\<lambda>n. 3 \<le> n) (view scene_grid) scene_state = Inr (b, s')
        \<and> pushes (ev s') - pushes (ev scene_state) = pops (ev s') - pops (ev scene_state)
        \<and> stack_depth (ev s') = stack_depth (ev scene_state))"
proof -
  have h: "(0::nat) < 1" by simp
  from recurse_push_pop_balanced[OF h, of 0 scene_grid "\<lambda>n. 3 \<le> n" "view scene_grid" scene_state]
  show ?thesis using h by blast
qed

lemma fold_rel:
  assumes "\<And>a. R a a" and "\<And>a b c. R a b \<Longrightarrow> R b c \<Longrightarrow> R a c" and "\<And>c a. R a (f c a)"
  shows "R a (fold f cs a)"
proof (induction cs arbitrary: a)
  case Nil
  show ?case by (simp add: assms(1))
next
  case (Cons c cs)
  have "R a (f c a)" by (rule assms(3))
  moreover have "R (f c a) (fold f cs (f c a))" by (rule Cons.IH)
  ultimately show ?case using assms(2) by auto
qed

lemma recurse_rel:
  assumes N: "0 < N"
    and refl: "\<And>s. R s s"
    and trans: "\<And>a b c. R a b \<Longrightarrow> R b c \<Longrightarrow> R a c"
    and poll: "\<And>s. R s (s\<lparr>polls := polls s + 1\<rparr>)"
    and pu: "\<And>s. R s (s\<lparr>ev := push_ev (ev s)\<rparr>)"
    and po: "\<And>s. R s (s\<lparr>ev := pop_ev (ev s)\<rparr>)"
    and px: "\<And>r s s'. P r \<Longrightarrow> pixels N u g r s = Inr s' \<Longrightarrow> R s s'"
    and fl: "\<And>r s s'. P r \<Longrightarrow> \<not> voxels r \<le> N
        \<Longrightarrow> snd (eval_interval (view_lower g r) (view_upper g r) (ev s)) < 0
        \<Longrightarrow> fill N u g r s = Inr s' \<Longrightarrow> R s s'"
    and sp: "\<And>r a b. P r \<Longrightarrow> split r = Inr (a, b) \<Longrightarrow> P a \<and> P b"
    and "P r" and "recurse N u g abort r s = Inr (b, s')"
  shows "R s s'"
  using assms(10,11)
proof (induction "voxels r" arbitrary: r s b s' rule: less_induct)
  case less
  let ?s1 = "s\<lparr>polls := polls s + 1\<rparr>"
  have p1: "R s ?s1" by (rule poll)
  from less.prems(2) show ?case
  proof (cases rule: recurse_cases)
    case aborted
    with p1 show ?thesis by simp
  next
    case occluded
    with p1 show ?thesis by simp
  next
    case leaf
    from px[OF less.prems(1) leaf(5)] p1 show ?thesis by (rule trans[rotated])
  next
    case filled
    have "snd (eval_interval (view_lower g r) (view_upper g r) (ev ?s1)) < 0"
      using filled(4) by simp
    from fl[OF less.prems(1) filled(3) this filled(6)] p1 show ?thesis by (rule trans[rotated])
  next
    case outside
    with p1 show ?thesis by simp
  next
    case (descend first second b2 s2)
    from split_smaller[OF descend(6)] descend(3)
    have sm: "voxels first < voxels r" "voxels second < voxels r" by simp_all
    from sp[OF less.prems(1) descend(6)] have P: "P first" "P second" by simp_all
    have "R ?s1 (?s1\<lparr>ev := push_ev (ev ?s1)\<rparr>)" by (rule pu)
    with p1 have "R s (s\<lparr>polls := polls s + 1, ev := push_ev (ev s)\<rparr>)"
      by (auto intro: trans)
    moreover from less.hyps[OF sm(2) P(2) descend(7)]
    have "R (s\<lparr>polls := polls s + 1, ev := push_ev (ev s)\<rparr>) s2" .
    ultimately have r2: "R s s2" by (rule trans)
    show ?thesis
    proof (cases b2)
      case True
      with descend(8) obtain s1 where r1: "recurse N u g abort first s2 = Inr (b, s1)"
        and s': "s' = s1\<lparr>ev := pop_ev (ev s1)\<rparr>" by blast
      from less.hyps[OF sm(1) P(1) r1] have "R s2 s1" .
      moreover have "R s1 s'" unfolding s' by (rule po)
      ultimately show ?thesis using r2 by (blast intro: trans)
    next
      case False
      with descend(9) have "s' = s2\<lparr>ev := pop_ev (ev s2)\<rparr>" by simp
      then have "R s2 s'" by (simp add: po)
      with r2 show ?thesis by (rule trans)
    qed
  qed
qed

lemma raises_write: "d p < Some z \<Longrightarrow> raises\<^sup>*\<^sup>* d (d(p := Some z))"
  unfolding raises_def by blast

lemma col_step_raises: "raises\<^sup>*\<^sup>* (fst a) (fst (col_step u g t m r c a))"
proof -
  obtain i j where c: "c = (i, j)" by (cases c)
  obtain d n where a: "a = (d, n)" by (cases a)
  show ?thesis
    by (auto simp: c a col_step_def hit_effect_def Let_def split: option.splits
        intro!: raises_write)
qed

lemma fill_step_raises: "raises\<^sup>*\<^sup>* (fst a) (fst (fill_step u g t m r c a))"
proof -
  obtain i j where c: "c = (i, j)" by (cases c)
  obtain d n where a: "a = (d, n)" by (cases a)
  show ?thesis
    by (auto simp: c a fill_step_def intro!: raises_write)
qed

lemma pixels_raises:
  assumes "0 < N" and "pixels N u g r s = Inr s'"
  shows "raises\<^sup>*\<^sup>* (depth s) (depth s')"
proof -
  have "raises\<^sup>*\<^sup>* (fst (depth s, norm s))
      (fst (fold (col_step u g (tree (ev s)) (matrix (ev s)) r) (columns r) (depth s, norm s)))"
    by (rule fold_rel[where R = "\<lambda>a b. raises\<^sup>*\<^sup>* (fst a) (fst b)"])
       (auto simp: col_step_raises)
  moreover from pixels_sem[OF assms(1), of u g r s] assms(2)
  have "(depth s', norm s') = fold (col_step u g (tree (ev s)) (matrix (ev s)) r) (columns r) (depth s, norm s)"
    by auto
  ultimately show ?thesis by (metis fst_conv)
qed

lemma fill_raises:
  assumes "0 < N" and "fill N u g r s = Inr s'"
  shows "raises\<^sup>*\<^sup>* (depth s) (depth s')"
proof -
  have "raises\<^sup>*\<^sup>* (fst (depth s, norm s))
      (fst (fold (fill_step u g (tree (ev s)) (matrix (ev s)) r) (columns r) (depth s, norm s)))"
    by (rule fold_rel[where R = "\<lambda>a b. raises\<^sup>*\<^sup>* (fst a) (fst b)"])
       (auto simp: fill_step_raises)
  moreover from fill_sem[OF assms(1), of u g r s] assms(2)
  have "(depth s', norm s') = fold (fill_step u g (tree (ev s)) (matrix (ev s)) r) (columns r) (depth s, norm s)"
    by auto
  ultimately show ?thesis by (metis fst_conv)
qed

lemma recurse_raises:
  assumes "0 < N" and "recurse N u g abort r s = Inr (b, s')"
  shows "raises\<^sup>*\<^sup>* (depth s) (depth s')"
  by (rule recurse_rel[where R = "\<lambda>s s'. raises\<^sup>*\<^sup>* (depth s) (depth s')" and P = "\<lambda>_. True",
        OF assms(1) _ _ _ _ _ _ _ _ _ assms(2)])
     (auto intro: pixels_raises[OF assms(1)] fill_raises[OF assms(1)])

lemma raises_le:
  assumes "raises\<^sup>*\<^sup>* d d'"
  shows "d p \<le> d' p"
  using assms
proof (induction rule: rtranclp_induct)
  case base
  show ?case by simp
next
  case (step y z)
  from step(2) have "y p \<le> z p" by (auto simp: raises_def)
  with step(3) show ?case by simp
qed



lemma split_in_grid:
  assumes "view_in_grid g r" and "split r = Inr (a, b)"
  shows "view_in_grid g a \<and> view_in_grid g b"
  using assms
  by (auto simp: view_in_grid_def split_def split_x_def split_y_def split_z_def split: if_splits)

lemma sound_refl: "sound g t m d d"
  by (simp add: sound_def)

lemma sound_trans:
  assumes "sound g t m a b" and "sound g t m b c"
  shows "sound g t m a c"
  unfolding sound_def
proof
  fix p
  from assms(1) have ab: "b p = a p \<or> (fst p < length (pts_y g) \<and> snd p < length (pts_x g)
            \<and> (\<exists>k. k < length (pts_z g) \<and> filled_at g t m p k \<and> b p = Some (pts_z g ! k)))"
    unfolding sound_def by blast
  from assms(2) have bc: "c p = b p \<or> (fst p < length (pts_y g) \<and> snd p < length (pts_x g)
            \<and> (\<exists>k. k < length (pts_z g) \<and> filled_at g t m p k \<and> c p = Some (pts_z g ! k)))"
    unfolding sound_def by blast
  from ab bc show "c p = a p \<or> (fst p < length (pts_y g) \<and> snd p < length (pts_x g)
            \<and> (\<exists>k. k < length (pts_z g) \<and> filled_at g t m p k \<and> c p = Some (pts_z g ! k)))"
    by metis
qed

lemma sound_write:
  assumes "fst p < length (pts_y g)" "snd p < length (pts_x g)" "k < length (pts_z g)"
    "filled_at g t m p k"
  shows "sound g t m d (d(p := Some (pts_z g ! k)))"
  unfolding sound_def using assms by auto

lemma in_columns: "(i, j) \<in> set (columns r) \<longleftrightarrow> i < size_x r \<and> j < size_y r"
  by (auto simp: columns_def)

lemma col_step_sound:
  assumes "view_in_grid g r" and "c \<in> set (columns r)"
  shows "sound g t m (fst a) (fst (col_step u g t m r c a))"
proof -
  obtain i j where c: "c = (i, j)" by (cases c)
  obtain d n where a: "a = (d, n)" by (cases a)
  from assms(2) c have ij: "i < size_x r" "j < size_y r" by (simp_all add: in_columns)
  show ?thesis
  proof (cases "find (\<lambda>k. tree_field t (m (voxel_point g r i j k)) < 0) [0..<size_z r]")
    case None
    then show ?thesis by (simp add: c a col_step_def hit_effect_def sound_refl)
  next
    case (Some k)
    then have k: "k < size_z r" "tree_field t (m (voxel_point g r i j k)) < 0"
      by (auto simp: find_Some_iff)
    define kz where "kz = corner_z r + (size_z r - k - 1)"
    have "kz < length (pts_z g)" using k(1) assms(1) by (auto simp: kz_def view_in_grid_def)
    moreover have "filled_at g t m (pixel r i j) kz"
      using k(2) by (simp add: filled_at_def pixel_def voxel_point_def kz_def)
    moreover have "fst (pixel r i j) < length (pts_y g)" "snd (pixel r i j) < length (pts_x g)"
      using ij assms(1) by (simp_all add: pixel_def view_in_grid_def)
    ultimately have "sound g t m d (d(pixel r i j := Some (pts_z g ! kz)))"
      by (intro sound_write)
    then show ?thesis
      using Some by (simp add: c a col_step_def hit_effect_def Let_def sound_refl kz_def)
  qed
qed

lemma fill_step_sound:
  assumes "view_in_grid g r" and "c \<in> set (columns r)" and "0 < size_z r"
    and "\<forall>i j. i < size_x r \<and> j < size_y r \<longrightarrow> filled_at g t m (pixel r i j) (corner_z r + (size_z r - 1))"
  shows "sound g t m (fst a) (fst (fill_step u g t m r c a))"
proof -
  obtain i j where c: "c = (i, j)" by (cases c)
  obtain d n where a: "a = (d, n)" by (cases a)
  from assms(2) c have ij: "i < size_x r" "j < size_y r" by (simp_all add: in_columns)
  define kz where "kz = corner_z r + (size_z r - 1)"
  have "kz < length (pts_z g)" using assms(1,3) by (auto simp: kz_def view_in_grid_def)
  moreover have "filled_at g t m (pixel r i j) kz"
    using assms(4) ij by (simp add: kz_def)
  moreover have "fst (pixel r i j) < length (pts_y g)" "snd (pixel r i j) < length (pts_x g)"
    using ij assms(1) by (simp_all add: pixel_def view_in_grid_def)
  ultimately have "sound g t m d (d(pixel r i j := Some (pts_z g ! kz)))"
    by (intro sound_write)
  then show ?thesis
    by (simp add: c a fill_step_def sound_refl kz_def top_z_def)
qed

lemma fold_rel_set:
  assumes "\<And>a. R a a" and "\<And>a b c. R a b \<Longrightarrow> R b c \<Longrightarrow> R a c"
    and "\<And>c a. c \<in> set cs \<Longrightarrow> R a (f c a)"
  shows "R a (fold f cs a)"
  using assms(3)
proof (induction cs arbitrary: a)
  case Nil
  show ?case by (simp add: assms(1))
next
  case (Cons c cs)
  have "R a (f c a)" by (rule Cons.prems) simp
  moreover have "R (f c a) (fold f cs (f c a))" by (rule Cons.IH) (simp add: Cons.prems)
  ultimately show ?case using assms(2) by auto
qed

lemma pixels_sound:
  assumes "0 < N" and "pixels N u g r s = Inr s'" and "view_in_grid g r"
  shows "sound g (tree (ev s)) (matrix (ev s)) (depth s) (depth s')"
proof -
  let ?t = "tree (ev s)" and ?m = "matrix (ev s)"
  have "sound g ?t ?m (fst (depth s, norm s))
      (fst (fold (col_step u g ?t ?m r) (columns r) (depth s, norm s)))"
    by (rule fold_rel_set[where R = "\<lambda>a b. sound g ?t ?m (fst a) (fst b)"])
       (auto simp: sound_refl col_step_sound[OF assms(3)] intro: sound_trans)
  moreover from pixels_sem[OF assms(1), of u g r s] assms(2)
  have "(depth s', norm s') = fold (col_step u g ?t ?m r) (columns r) (depth s, norm s)"
    by auto
  ultimately show ?thesis by (metis fst_conv)
qed

lemma fill_sound:
  assumes "0 < N" and "fill N u g r s = Inr s'" and "view_in_grid g r" and "0 < size_z r"
    and "\<forall>i j. i < size_x r \<and> j < size_y r
       \<longrightarrow> filled_at g (tree (ev s)) (matrix (ev s)) (pixel r i j) (corner_z r + (size_z r - 1))"
  shows "sound g (tree (ev s)) (matrix (ev s)) (depth s) (depth s')"
proof -
  let ?t = "tree (ev s)" and ?m = "matrix (ev s)"
  have "sound g ?t ?m (fst (depth s, norm s))
      (fst (fold (fill_step u g ?t ?m r) (columns r) (depth s, norm s)))"
    by (rule fold_rel_set[where R = "\<lambda>a b. sound g ?t ?m (fst a) (fst b)"])
       (auto simp: sound_refl fill_step_sound[OF assms(3) _ assms(4,5)] intro: sound_trans)
  moreover from fill_sem[OF assms(1), of u g r s] assms(2)
  have "(depth s', norm s') = fold (fill_step u g ?t ?m r) (columns r) (depth s, norm s)"
    by auto
  ultimately show ?thesis by (metis fst_conv)
qed

lemma contract_at_centres:
  assumes "interval_sound t m" and "centres_in_bounds g" and "view_in_grid g r"
    and "i < size_x r" "j < size_y r" "k < size_z r"
  shows "fst (tree_interval t m (view_lower g r) (view_upper g r))
      \<le> tree_field t (m (pts_x g ! (corner_x r + i), pts_y g ! (corner_y r + j), pts_z g ! (corner_z r + k)))"
    and "tree_field t (m (pts_x g ! (corner_x r + i), pts_y g ! (corner_y r + j), pts_z g ! (corner_z r + k)))
      \<le> snd (tree_interval t m (view_lower g r) (view_upper g r))"
proof -
  from assms(2-) have "in_box (view_lower g r) (view_upper g r)
      (pts_x g ! (corner_x r + i), pts_y g ! (corner_y r + j), pts_z g ! (corner_z r + k))"
    unfolding centres_in_bounds_def by blast
  with assms(1) show
    "fst (tree_interval t m (view_lower g r) (view_upper g r))
      \<le> tree_field t (m (pts_x g ! (corner_x r + i), pts_y g ! (corner_y r + j), pts_z g ! (corner_z r + k)))"
    "tree_field t (m (pts_x g ! (corner_x r + i), pts_y g ! (corner_y r + j), pts_z g ! (corner_z r + k)))
      \<le> snd (tree_interval t m (view_lower g r) (view_upper g r))"
    unfolding interval_sound_def by blast+
qed

lemma inside_all_filled:
  assumes "interval_sound t m" and "centres_in_bounds g" and "view_in_grid g r"
    and "snd (tree_interval t m (view_lower g r) (view_upper g r)) < 0"
    and "i < size_x r" "j < size_y r" "k < size_z r"
  shows "filled_at g t m (pixel r i j) (corner_z r + k)"
  using contract_at_centres(2)[OF assms(1-3,5-7)] assms(4)
  by (simp add: filled_at_def pixel_def)

lemma outside_none_filled:
  assumes "interval_sound t m" and "centres_in_bounds g" and "view_in_grid g r"
    and "\<not> fst (tree_interval t m (view_lower g r) (view_upper g r)) \<le> 0"
    and "i < size_x r" "j < size_y r" "k < size_z r"
  shows "\<not> filled_at g t m (pixel r i j) (corner_z r + k)"
  using contract_at_centres(1)[OF assms(1-3,5-7)] assms(4)
  by (simp add: filled_at_def pixel_def)

lemma recurse_sound:
  assumes "0 < N" and "recurse N u g abort r s = Inr (b, s')"
    and "view_in_grid g r" and "interval_sound t m" and "centres_in_bounds g"
    and "tree (ev s) = t" and "matrix (ev s) = m"
  shows "sound g t m (depth s) (depth s')"
proof -
  let ?R = "\<lambda>s s'. tree (ev s) = t \<and> matrix (ev s) = m
      \<longrightarrow> tree (ev s') = t \<and> matrix (ev s') = m \<and> sound g t m (depth s) (depth s')"
  have "?R s s'"
  proof (rule recurse_rel[where R = ?R and P = "view_in_grid g", OF assms(1) _ _ _ _ _ _ _ _ assms(3) assms(2)])
    fix a b c assume "?R a b" "?R b c"
    then show "?R a c" by (auto intro: sound_trans)
  next
    fix r s s' assume "view_in_grid g r" "pixels N u g r s = Inr s'"
    then show "?R s s'"
      using pixels_sound[OF assms(1)] pixels_frame[OF assms(1)] by auto
  next
    fix r s s'
    assume v: "view_in_grid g r" and big: "\<not> voxels r \<le> N"
      and neg: "snd (eval_interval (view_lower g r) (view_upper g r) (ev s)) < 0"
      and f: "fill N u g r s = Inr s'"
    from big have sz: "0 < size_z r" by (cases "size_z r = 0") (simp_all add: voxels_def)
    show "?R s s'"
    proof (intro impI, elim conjE)
      assume tm: "tree (ev s) = t" "matrix (ev s) = m"
      with neg have neg': "snd (tree_interval t m (view_lower g r) (view_upper g r)) < 0"
        by (simp add: eval_interval_def)
      have "\<forall>i j. i < size_x r \<and> j < size_y r
         \<longrightarrow> filled_at g (tree (ev s)) (matrix (ev s)) (pixel r i j) (corner_z r + (size_z r - 1))"
        using inside_all_filled[OF assms(4,5) v neg', where k = "size_z r - 1"] sz tm by simp
      from fill_sound[OF assms(1) f v sz this] fill_frame[OF assms(1) f] tm
      show "tree (ev s') = t \<and> matrix (ev s') = m \<and> sound g t m (depth s) (depth s')" by simp
    qed
  next
    fix r a b assume "view_in_grid g r" "split r = Inr (a, b)"
    then show "view_in_grid g a \<and> view_in_grid g b" by (rule split_in_grid)
  qed (simp_all add: sound_refl push_ev_def pop_ev_def)
  with assms(6,7) show ?thesis by simp
qed

lemma covered_columns:
  "covered g t m r d \<longleftrightarrow> (\<forall>c \<in> set (columns r). column_covered g t m r d c)"
  unfolding covered_def column_covered_def
  by (auto simp: Ball_def in_columns)

lemma column_covered_mono:
  assumes "column_covered g t m r d c" and "\<And>p. d p \<le> d' p"
  shows "column_covered g t m r d' c"
proof -
  obtain i j where c: "c = (i, j)" by (cases c)
  show ?thesis
    unfolding c column_covered_def
  proof (clarsimp)
    fix k assume "k < size_z r" "filled_at g t m (pixel r i j) (corner_z r + k)"
    with assms(1) have "Some (pts_z g ! (corner_z r + k)) \<le> d (pixel r i j)"
      by (simp add: c column_covered_def)
    also have "\<dots> \<le> d' (pixel r i j)" by (rule assms(2))
    finally show "Some (pts_z g ! (corner_z r + k)) \<le> d' (pixel r i j)" .
  qed
qed

lemma covered_mono:
  assumes "covered g t m r d" and "\<And>p. d p \<le> d' p"
  shows "covered g t m r d'"
  using assms by (auto simp: covered_columns intro: column_covered_mono)

lemma top_is_highest:
  assumes "sorted (pts_z g)" and "view_in_grid g r" and "k < size_z r"
  shows "pts_z g ! (corner_z r + k) \<le> top_z g r"
proof -
  have "corner_z r + k \<le> corner_z r + (size_z r - 1)" "corner_z r + (size_z r - 1) < length (pts_z g)"
    using assms(2,3) by (auto simp: view_in_grid_def)
  with assms(1) show ?thesis unfolding top_z_def by (rule sorted_nth_mono)
qed

lemma above_top_covered:
  assumes "sorted (pts_z g)" and "view_in_grid g r" and "Some (top_z g r) \<le> d (pixel r i j)"
  shows "column_covered g t m r d (i, j)"
  unfolding column_covered_def
proof (clarsimp)
  fix k assume "k < size_z r"
  from top_is_highest[OF assms(1,2) this] have "Some (pts_z g ! (corner_z r + k)) \<le> Some (top_z g r)"
    by simp
  with assms(3) show "Some (pts_z g ! (corner_z r + k)) \<le> d (pixel r i j)"
    by (rule order_trans[rotated])
qed

lemma occluded_covered:
  assumes "sorted (pts_z g)" and "view_in_grid g r" and "occluded g r d"
  shows "covered g t m r d"
  unfolding covered_columns
proof
  fix c assume "c \<in> set (columns r)"
  moreover obtain i j where c: "c = (i, j)" by (cases c)
  ultimately have ij: "i < size_x r" "j < size_y r" by (simp_all add: in_columns)
  with assms(3) have "Some (top_z g r) \<le> d (pixel r i j)" by (simp add: occluded_def)
  from above_top_covered[where d = d and i = i and j = j, OF assms(1,2) this] c
  show "column_covered g t m r d c" by simp
qed

lemma col_step_covers:
  assumes "sorted (pts_z g)" and "view_in_grid g r"
  shows "column_covered g t m r (fst (col_step u g t m r (i, j) (d, n))) (i, j)"
proof (cases "column_open g r d i j")
  case False
  then have "Some (top_z g r) \<le> d (pixel r i j)" by (simp add: column_open_def)
  from above_top_covered[where d = d and i = i and j = j, OF assms this] False
  show ?thesis by (simp add: col_step_def)
next
  case opn: True
  let ?P = "\<lambda>k. tree_field t (m (voxel_point g r i j k)) < 0"
  have filled: "filled_at g t m (pixel r i j) (corner_z r + (size_z r - k - 1)) \<longleftrightarrow> ?P k" for k
    by (simp add: filled_at_def pixel_def voxel_point_def)
  show ?thesis
  proof (cases "find ?P [0..<size_z r]")
    case None
    then have no: "\<forall>k < size_z r. \<not> ?P k" by (auto simp: find_None_iff)
    have "\<not> filled_at g t m (pixel r i j) (corner_z r + k)" if "k < size_z r" for k
    proof -
      from that have "size_z r - k - 1 < size_z r" "size_z r - (size_z r - k - 1) - 1 = k" by auto
      with no filled[of "size_z r - k - 1"] show ?thesis by simp
    qed
    then show ?thesis using None opn by (auto simp: col_step_def hit_effect_def column_covered_def)
  next
    case (Some k0)
    then have k0: "k0 < size_z r" "?P k0" "\<forall>k < k0. \<not> ?P k"
      by (auto simp: find_Some_iff)
    define z where "z = pts_z g ! (corner_z r + (size_z r - k0 - 1))"
    have low: "pts_z g ! (corner_z r + k) \<le> z"
      if "k < size_z r" "filled_at g t m (pixel r i j) (corner_z r + k)" for k
    proof -
      from that(1) have e: "size_z r - k - 1 < size_z r" "size_z r - (size_z r - k - 1) - 1 = k" by auto
      with that(2) filled[of "size_z r - k - 1"] have "?P (size_z r - k - 1)" by simp
      with k0(3) have "\<not> size_z r - k - 1 < k0" by blast
      then have "corner_z r + k \<le> corner_z r + (size_z r - k0 - 1)" using that(1) k0(1) by simp
      moreover have "corner_z r + (size_z r - k0 - 1) < length (pts_z g)"
        using k0(1) assms(2) by (auto simp: view_in_grid_def)
      ultimately show ?thesis unfolding z_def using assms(1) by (intro sorted_nth_mono)
    qed
    have res: "Some z \<le> fst (col_step u g t m r (i, j) (d, n)) (pixel r i j)"
      using Some opn by (auto simp: col_step_def hit_effect_def Let_def z_def not_less)
    show ?thesis
      unfolding column_covered_def
    proof (clarsimp)
      fix k assume "k < size_z r" "filled_at g t m (pixel r i j) (corner_z r + k)"
      from low[OF this] have "Some (pts_z g ! (corner_z r + k)) \<le> Some z" by simp
      with res show "Some (pts_z g ! (corner_z r + k)) \<le> fst (col_step u g t m r (i, j) (d, n)) (pixel r i j)"
        by (rule order_trans[rotated])
    qed
  qed
qed

lemma fill_step_covers:
  assumes "sorted (pts_z g)" and "view_in_grid g r"
  shows "column_covered g t m r (fst (fill_step u g t m r (i, j) (d, n))) (i, j)"
proof -
  have "Some (top_z g r) \<le> fst (fill_step u g t m r (i, j) (d, n)) (pixel r i j)"
    by (auto simp: fill_step_def not_less)
  from above_top_covered[where d = "fst (fill_step u g t m r (i, j) (d, n))" and i = i and j = j,
      OF assms this]
  show ?thesis .
qed

lemma fold_covers:
  assumes step: "\<And>c a. column_covered g t m r (fst (f c a)) c"
    and up: "\<And>c a p. fst a p \<le> fst (f c a) p"
  shows "\<forall>c \<in> set cs. column_covered g t m r (fst (fold f cs a)) c"
proof (induction cs arbitrary: a)
  case Nil
  show ?case by simp
next
  case (Cons c cs)
  have mono: "fst (f c a) p \<le> fst (fold f cs (f c a)) p" for p
    by (rule fold_rel[where R = "\<lambda>a b. fst a p \<le> fst b p"]) (auto intro: up order_trans)
  have "column_covered g t m r (fst (fold f cs (f c a))) c"
    by (rule column_covered_mono[OF step mono])
  with Cons.IH[of "f c a"] show ?case by simp
qed

lemma pixels_covered:
  assumes "0 < N" and "pixels N u g r s = Inr s'" and "sorted (pts_z g)" and "view_in_grid g r"
  shows "covered g (tree (ev s)) (matrix (ev s)) r (depth s')"
proof -
  let ?t = "tree (ev s)" and ?m = "matrix (ev s)"
  have "\<forall>c \<in> set (columns r). column_covered g ?t ?m r
      (fst (fold (col_step u g ?t ?m r) (columns r) (depth s, norm s))) c"
  proof (rule fold_covers)
    fix c :: "nat \<times> nat" and a :: "DepthImage \<times> NormalImage"
    show "column_covered g ?t ?m r (fst (col_step u g ?t ?m r c a)) c"
      using col_step_covers[OF assms(3,4), of ?t ?m u "fst c" "snd c" "fst a" "snd a"] by simp
    show "fst a p \<le> fst (col_step u g ?t ?m r c a) p" for p
      using col_step_raises[of a u g ?t ?m r c] by (rule raises_le)
  qed
  moreover from pixels_sem[OF assms(1), of u g r s] assms(2)
  have "(depth s', norm s') = fold (col_step u g ?t ?m r) (columns r) (depth s, norm s)"
    by auto
  ultimately show ?thesis unfolding covered_columns by (metis fst_conv)
qed

lemma fill_covered:
  assumes "0 < N" and "fill N u g r s = Inr s'" and "sorted (pts_z g)" and "view_in_grid g r"
  shows "covered g (tree (ev s)) (matrix (ev s)) r (depth s')"
proof -
  let ?t = "tree (ev s)" and ?m = "matrix (ev s)"
  have "\<forall>c \<in> set (columns r). column_covered g ?t ?m r
      (fst (fold (fill_step u g ?t ?m r) (columns r) (depth s, norm s))) c"
  proof (rule fold_covers)
    fix c :: "nat \<times> nat" and a :: "DepthImage \<times> NormalImage"
    show "column_covered g ?t ?m r (fst (fill_step u g ?t ?m r c a)) c"
      using fill_step_covers[OF assms(3,4), of ?t ?m u "fst c" "snd c" "fst a" "snd a"] by simp
    show "fst a p \<le> fst (fill_step u g ?t ?m r c a) p" for p
      using fill_step_raises[of a u g ?t ?m r c] by (rule raises_le)
  qed
  moreover from fill_sem[OF assms(1), of u g r s] assms(2)
  have "(depth s', norm s') = fold (fill_step u g ?t ?m r) (columns r) (depth s, norm s)"
    by auto
  ultimately show ?thesis unfolding covered_columns by (metis fst_conv)
qed

lemma coveredD:
  assumes "covered g t m r d" and "i < size_x r" "j < size_y r" "k < size_z r"
    and "filled_at g t m (pixel r i j) (corner_z r + k)"
  shows "Some (pts_z g ! (corner_z r + k)) \<le> d (pixel r i j)"
  using assms unfolding covered_def by blast

lemma split_covered:
  assumes "split r = Inr (a, b)" and "covered g t m a d" and "covered g t m b d"
  shows "covered g t m r d"
proof -
  from assms(1) consider
    (X) "a = r\<lparr>size_x := size_x r div 2\<rparr>"
        "b = r\<lparr>corner_x := corner_x r + size_x r div 2, size_x := size_x r - size_x r div 2\<rparr>"
  | (Y) "a = r\<lparr>size_y := size_y r div 2\<rparr>"
        "b = r\<lparr>corner_y := corner_y r + size_y r div 2, size_y := size_y r - size_y r div 2\<rparr>"
  | (Z) "a = r\<lparr>size_z := size_z r div 2\<rparr>"
        "b = r\<lparr>corner_z := corner_z r + size_z r div 2, size_z := size_z r - size_z r div 2\<rparr>"
    by (auto simp: split_def split_x_def split_y_def split_z_def split: if_splits)
  then show ?thesis
  proof cases
    case X
    show ?thesis
      unfolding covered_def
    proof (intro allI impI, elim conjE)
      fix i j k
      assume h: "i < size_x r" "j < size_y r" "k < size_z r"
        "filled_at g t m (pixel r i j) (corner_z r + k)"
      show "Some (pts_z g ! (corner_z r + k)) \<le> d (pixel r i j)"
      proof (cases "i < size_x r div 2")
        case True
        have "pixel a i j = pixel r i j" by (simp add: X pixel_def)
        with coveredD[OF assms(2), of i j k] h True show ?thesis by (simp add: X)
      next
        case False
        have "pixel b (i - size_x r div 2) j = pixel r i j" using False by (simp add: X pixel_def)
        with coveredD[OF assms(3), of "i - size_x r div 2" j k] h False show ?thesis
          by (simp add: X)
      qed
    qed
  next
    case Y
    show ?thesis
      unfolding covered_def
    proof (intro allI impI, elim conjE)
      fix i j k
      assume h: "i < size_x r" "j < size_y r" "k < size_z r"
        "filled_at g t m (pixel r i j) (corner_z r + k)"
      show "Some (pts_z g ! (corner_z r + k)) \<le> d (pixel r i j)"
      proof (cases "j < size_y r div 2")
        case True
        have "pixel a i j = pixel r i j" by (simp add: Y pixel_def)
        with coveredD[OF assms(2), of i j k] h True show ?thesis by (simp add: Y)
      next
        case False
        have "pixel b i (j - size_y r div 2) = pixel r i j" using False by (simp add: Y pixel_def)
        with coveredD[OF assms(3), of i "j - size_y r div 2" k] h False show ?thesis
          by (simp add: Y)
      qed
    qed
  next
    case Z
    show ?thesis
      unfolding covered_def
    proof (intro allI impI, elim conjE)
      fix i j k
      assume h: "i < size_x r" "j < size_y r" "k < size_z r"
        "filled_at g t m (pixel r i j) (corner_z r + k)"
      have pa: "pixel a i j = pixel r i j" and pb: "pixel b i j = pixel r i j"
        by (simp_all add: Z pixel_def)
      show "Some (pts_z g ! (corner_z r + k)) \<le> d (pixel r i j)"
      proof (cases "k < size_z r div 2")
        case True
        with coveredD[OF assms(2), of i j k] h pa show ?thesis by (simp add: Z)
      next
        case False
        then have "corner_z b + (k - size_z r div 2) = corner_z r + k" by (simp add: Z)
        with coveredD[OF assms(3), of i j "k - size_z r div 2"] h pb False show ?thesis
          by (simp add: Z)
      qed
    qed
  qed
qed

lemma outside_covered:
  assumes "interval_sound t m" and "centres_in_bounds g" and "view_in_grid g r"
    and "\<not> fst (tree_interval t m (view_lower g r) (view_upper g r)) \<le> 0"
  shows "covered g t m r d"
  unfolding covered_def using outside_none_filled[OF assms] by blast

lemma recurse_covered:
  assumes "0 < N" and "recurse N u g abort r s = Inr (True, s')"
    and "view_in_grid g r" and "sorted (pts_z g)" and "interval_sound t m" and "centres_in_bounds g"
    and "tree (ev s) = t" and "matrix (ev s) = m"
  shows "covered g t m r (depth s')"
  using assms(2,3,7,8)
proof (induction "voxels r" arbitrary: r s s' rule: less_induct)
  case less
  note v = less.prems(2) and tm = less.prems(3,4)
  from less.prems(1) show ?case
  proof (cases rule: recurse_cases)
    case aborted
    then show ?thesis by simp
  next
    case occluded
    with occluded_covered[OF assms(4) v, of "depth s" t m] show ?thesis by simp
  next
    case leaf
    from pixels_covered[OF assms(1) leaf(5) assms(4) v] tm show ?thesis by simp
  next
    case filled
    from fill_covered[OF assms(1) filled(6) assms(4) v] tm show ?thesis by simp
  next
    case outside
    from outside(5) tm have "\<not> fst (tree_interval t m (view_lower g r) (view_upper g r)) \<le> 0"
      by (simp add: eval_interval_def)
    from outside_covered[OF assms(5,6) v this] show ?thesis .
  next
    case (descend first second b2 s2)
    from split_smaller[OF descend(6)] descend(3)
    have sm: "voxels first < voxels r" "voxels second < voxels r" by simp_all
    from split_in_grid[OF v descend(6)] have vg: "view_in_grid g first" "view_in_grid g second"
      by simp_all
    from descend(9) have b2: b2 by auto
    with descend(8) obtain s1 where r1: "recurse N u g abort first s2 = Inr (True, s1)"
      and s': "s' = s1\<lparr>ev := pop_ev (ev s1)\<rparr>" by blast
    from descend(7) b2
    have r2: "recurse N u g abort second (s\<lparr>polls := polls s + 1, ev := push_ev (ev s)\<rparr>) = Inr (True, s2)"
      by simp
    have c2: "covered g t m second (depth s2)"
      by (rule less.hyps[OF sm(2) r2 vg(2)]) (simp_all add: tm push_ev_def)
    from recurse_frame[OF assms(1) r2] tm
    have f2: "tree (ev s2) = t" "matrix (ev s2) = m" by (simp_all add: push_ev_def)
    have c1: "covered g t m first (depth s1)"
      by (rule less.hyps[OF sm(1) r1 vg(1) f2])
    have "depth s2 p \<le> depth s1 p" for p
      using recurse_raises[OF assms(1) r1] by (rule raises_le)
    with c2 have "covered g t m second (depth s1)" by (rule covered_mono)
    with c1 have "covered g t m r (depth s1)" by (rule split_covered[OF descend(6)])
    then show ?thesis by (simp add: s')
  qed
qed

lemma pack_nonzero: "pack u d \<noteq> 0"
proof -
  obtain dx dy dz where d: "d = (dx, dy, dz)" by (cases d)
  have "bit (pack u d) 24"
    by (simp add: d pack_def Let_def bit_simps)
  then show ?thesis by auto
qed

lemma paired_lit:
  assumes "paired u g t m a b"
  shows "lit a b"
  unfolding lit_def
proof (intro allI conjI impI)
  fix p
  from assms have ab: "fst a p \<le> fst b p" "fst b p = fst a p \<longrightarrow> snd b p = snd a p"
    "fst b p \<noteq> fst a p \<longrightarrow> (\<exists>z. fst b p = Some z \<and> snd b p = normal_at u g t m p z)"
    unfolding paired_def by blast+
  from ab(1) show "fst a p \<le> fst b p" .
  { assume "fst b p = fst a p" with ab(2) show "snd b p = snd a p" by simp }
  { assume "fst b p \<noteq> fst a p"
    with ab(3) show "snd b p \<noteq> 0" by (auto simp: normal_at_def pack_nonzero) }
qed

lemma lit_refl: "lit a a"
  by (simp add: lit_def)

lemma lit_trans:
  assumes "lit a b" and "lit b c"
  shows "lit a c"
  unfolding lit_def
proof (intro allI conjI impI)
  fix p
  from assms(1) have ab: "fst a p \<le> fst b p" "fst b p = fst a p \<longrightarrow> snd b p = snd a p"
    "fst b p \<noteq> fst a p \<longrightarrow> snd b p \<noteq> 0"
    unfolding lit_def by blast+
  from assms(2) have bc: "fst b p \<le> fst c p" "fst c p = fst b p \<longrightarrow> snd c p = snd b p"
    "fst c p \<noteq> fst b p \<longrightarrow> snd c p \<noteq> 0"
    unfolding lit_def by blast+
  from ab(1) bc(1) show "fst a p \<le> fst c p" by simp
  { assume "fst c p = fst a p"
    with ab(1) bc(1) have "fst b p = fst a p" "fst c p = fst b p" by simp_all
    with ab(2) bc(2) show "snd c p = snd a p" by simp }
  { assume "fst c p \<noteq> fst a p"
    with ab(2,3) bc(2,3) show "snd c p \<noteq> 0" by (cases "fst c p = fst b p") auto }
qed

lemma split_xy_defined:
  assumes "1 < min (size_x f) (size_y f)"
  shows "\<exists>a b. split_xy f = Inr (a, b)"
  using assms by (auto simp: split_xy_def split_x_def split_y_def)

lemma split_xy_tiles:
  assumes "tile_ok g f" and "split_xy f = Inr (a, b)"
  shows "tile_ok g a" "tile_ok g b"
    and "\<And>i j. i < size_x f \<Longrightarrow> j < size_y f \<Longrightarrow>
       (\<exists>i' j'. i' < size_x a \<and> j' < size_y a \<and> pixel a i' j' = pixel f i j)
       \<or> (\<exists>i' j'. i' < size_x b \<and> j' < size_y b \<and> pixel b i' j' = pixel f i j)"
proof -
  from assms(2) consider
    (X) "a = f\<lparr>size_x := size_x f div 2\<rparr>"
        "b = f\<lparr>corner_x := corner_x f + size_x f div 2, size_x := size_x f - size_x f div 2\<rparr>"
  | (Y) "a = f\<lparr>size_y := size_y f div 2\<rparr>"
        "b = f\<lparr>corner_y := corner_y f + size_y f div 2, size_y := size_y f - size_y f div 2\<rparr>"
    by (auto simp: split_xy_def split_x_def split_y_def split: if_splits)
  note cases = this
  from cases assms(1) show "tile_ok g a" "tile_ok g b"
    by (cases; auto simp: tile_ok_def view_in_grid_def)+
  fix i j assume ij: "i < size_x f" "j < size_y f"
  from cases show "(\<exists>i' j'. i' < size_x a \<and> j' < size_y a \<and> pixel a i' j' = pixel f i j)
       \<or> (\<exists>i' j'. i' < size_x b \<and> j' < size_y b \<and> pixel b i' j' = pixel f i j)"
  proof cases
    case X
    show ?thesis
    proof (cases "i < size_x f div 2")
      case True
      with ij X have "i < size_x a \<and> j < size_y a \<and> pixel a i j = pixel f i j"
        by (simp add: pixel_def)
      then show ?thesis by blast
    next
      case False
      with ij X have "i - size_x f div 2 < size_x b \<and> j < size_y b
          \<and> pixel b (i - size_x f div 2) j = pixel f i j"
        by (auto simp: pixel_def)
      then show ?thesis by blast
    qed
  next
    case Y
    show ?thesis
    proof (cases "j < size_y f div 2")
      case True
      with ij Y have "i < size_x a \<and> j < size_y a \<and> pixel a i j = pixel f i j"
        by (simp add: pixel_def)
      then show ?thesis by blast
    next
      case False
      with ij Y have "i < size_x b \<and> j - size_y f div 2 < size_y b
          \<and> pixel b i (j - size_y f div 2) = pixel f i j"
        by (auto simp: pixel_def)
      then show ?thesis by blast
    qed
  qed
qed

lemma build_regions_sem:
  assumes "rs \<noteq> []" and "\<forall>r \<in> set rs. tile_ok g r" and "tiles_cover g rs"
  shows "\<exists>rs'. build_regions w rs = Inr rs' \<and> rs' \<noteq> [] \<and> length rs' \<le> max (length rs) w
     \<and> (\<forall>r \<in> set rs'. tile_ok g r) \<and> tiles_cover g rs'"
  using assms
proof (induction "w - length rs" arbitrary: rs rule: less_induct)
  case less
  from less.prems(1) obtain f rest where rs: "rs = f # rest" by (cases rs) auto
  show ?case
  proof (cases "length rs < w \<and> 1 < min (size_x f) (size_y f)")
    case False
    then have "build_regions w rs = Inr rs"
      by (subst build_regions.simps) (auto simp: rs)
    with less.prems show ?thesis by auto
  next
    case True
    then obtain a b where sp: "split_xy f = Inr (a, b)" using split_xy_defined by blast
    let ?rs = "rest @ [a, b]"
    have br: "build_regions w rs = build_regions w ?rs"
      using True sp by (subst build_regions.simps) (simp add: rs)
    from less.prems(2) rs have tf: "tile_ok g f" by simp
    note st = split_xy_tiles[OF tf sp]
    have ok: "\<forall>r \<in> set ?rs. tile_ok g r"
      using less.prems(2) st(1,2) by (auto simp: rs)
    have cov: "tiles_cover g ?rs"
      unfolding tiles_cover_def
    proof (intro allI impI)
      fix x y assume "x < length (pts_x g) \<and> y < length (pts_y g)"
      with less.prems(3) obtain r i j where r: "r \<in> set rs" "i < size_x r" "j < size_y r"
        "pixel r i j = (y, x)"
        unfolding tiles_cover_def by blast
      show "\<exists>r \<in> set ?rs. \<exists>i j. i < size_x r \<and> j < size_y r \<and> pixel r i j = (y, x)"
      proof (cases "r = f")
        case True
        with st(3)[of i j] r show ?thesis by auto
      next
        case False
        with r rs have "r \<in> set ?rs" by simp
        with r show ?thesis by blast
      qed
    qed
    have "w - length ?rs < w - length rs" using True by (auto simp: rs)
    from less.hyps[OF this _ ok cov] obtain rs' where
      "build_regions w ?rs = Inr rs'" "rs' \<noteq> []" "length rs' \<le> max (length ?rs) w"
      "\<forall>r \<in> set rs'. tile_ok g r" "tiles_cover g rs'" by auto
    moreover have "max (length ?rs) w \<le> max (length rs) w" using True by (simp add: rs)
    ultimately show ?thesis using br by auto
  qed
qed

lemma launch_sem:
  assumes "itr + length rs \<le> length es"
  shows "\<exists>es'. launch m es itr rs = Inr (es', zip [itr..<itr + length rs] rs)
     \<and> length es' = length es
     \<and> (\<forall>k < length es. es' ! k = (if itr \<le> k \<and> k < itr + length rs then set_matrix m (es ! k)
                                    else es ! k))"
  using assms
proof (induction rs arbitrary: es itr)
  case Nil
  then show ?case by auto
next
  case (Cons r rs)
  let ?es = "es[itr := set_matrix m (es ! itr)]"
  from Cons.prems have lt: "itr < length es" and le: "Suc itr + length rs \<le> length ?es" by simp_all
  from Cons.IH[OF le] obtain es' where
    ih: "launch m ?es (Suc itr) rs = Inr (es', zip [Suc itr..<Suc itr + length rs] rs)"
    "length es' = length ?es"
    "\<forall>k < length ?es. es' ! k = (if Suc itr \<le> k \<and> k < Suc itr + length rs then set_matrix m (?es ! k)
                                    else ?es ! k)"
    by blast
  have "[itr..<Suc (itr + length rs)] = itr # [Suc itr..<Suc (itr + length rs)]"
    by (rule upt_conv_Cons) simp
  then have z: "zip [itr..<itr + length (r # rs)] (r # rs) = (itr, r) # zip [Suc itr..<Suc itr + length rs] rs"
    by (simp del: upt_Suc)
  have "launch m es itr (r # rs) = Inr (es', zip [itr..<itr + length (r # rs)] (r # rs))"
    using lt ih(1) z by (simp del: upt_Suc)
  moreover have "\<forall>k < length es. es' ! k
      = (if itr \<le> k \<and> k < itr + length (r # rs) then set_matrix m (es ! k) else es ! k)"
    using ih(3) lt by (auto simp: nth_list_update)
  ultimately show ?case using ih(2) by auto
qed

lemma paired_le: "paired u g t m a b \<Longrightarrow> fst a p \<le> fst b p"
  unfolding paired_def by blast

lemma recurse_lit:
  assumes "0 < N" and "recurse N u g abort r s = Inr (b, s')"
  shows "lit (depth s, norm s) (depth s', norm s')"
  using recurse_paired[OF assms refl refl] by (rule paired_lit)

lemma recurse_not_aborted:
  assumes "\<forall>k. \<not> abort k" and "recurse N u g abort r s = Inr (b, s')"
  shows b
  using assms(2)
proof (induction "voxels r" arbitrary: r s b s' rule: less_induct)
  case less
  from less.prems show ?case
  proof (cases rule: recurse_cases)
    case aborted
    with assms(1) show ?thesis by simp
  next
    case (descend first second b2 s2)
    from split_smaller[OF descend(6)] descend(3)
    have sm: "voxels first < voxels r" "voxels second < voxels r" by simp_all
    from less.hyps[OF sm(2) descend(7)] have b2 .
    with descend(8) obtain s1 where "recurse N u g abort first s2 = Inr (b, s1)" by blast
    from less.hyps[OF sm(1) this] show ?thesis .
  qed
qed

lemma join_lit:
  assumes "0 < N"
  shows "\<exists>d' n' p'. join N u g abort es fs (d, n, p) = Inr (d', n', p') \<and> lit (d, n) (d', n')"
proof (induction fs arbitrary: es d n p)
  case Nil
  show ?case by (simp add: lit_refl)
next
  case (Cons f fs)
  obtain itr r where f: "f = (itr, r)" by (cases f)
  let ?s = "\<lparr>ev = es ! itr, depth = d, norm = n, polls = p\<rparr>"
  from recurse_total[OF assms, of u g abort r ?s]
  obtain b s' where rc: "recurse N u g abort r ?s = Inr (b, s')" by blast
  from recurse_lit[OF assms rc] have l1: "lit (d, n) (depth s', norm s')" by simp
  from Cons.IH[of "es[itr := ev s']" "depth s'" "norm s'" "polls s'"] obtain d' n' p' where
    j: "join N u g abort (es[itr := ev s']) fs (depth s', norm s', polls s') = Inr (d', n', p')"
    and l2: "lit (depth s', norm s') (d', n')" by blast
  have "join N u g abort es (f # fs) (d, n, p) = Inr (d', n', p')"
    using rc j by (simp add: f)
  moreover from l1 l2 have "lit (d, n) (d', n')" by (rule lit_trans)
  ultimately show ?case by blast
qed

lemma join_post:
  assumes "0 < N" and "join N u g abort es fs (d, n, p) = Inr (d', n', p')"
    and "\<forall>(itr, r) \<in> set fs. itr < length es \<and> tree (es ! itr) = t \<and> matrix (es ! itr) = m
           \<and> view_in_grid g r"
    and "interval_sound t m" and "centres_in_bounds g"
  shows "paired u g t m (d, n) (d', n') \<and> sound g t m d d'
     \<and> (sorted (pts_z g) \<and> (\<forall>k. \<not> abort k) \<longrightarrow> (\<forall>(itr, r) \<in> set fs. covered g t m r d'))"
  using assms(2,3)
proof (induction fs arbitrary: es d n p)
  case Nil
  then show ?case by (simp add: paired_refl sound_refl)
next
  case (Cons f fs)
  obtain itr r where f: "f = (itr, r)" by (cases f)
  let ?s = "\<lparr>ev = es ! itr, depth = d, norm = n, polls = p\<rparr>"
  from Cons.prems(2) f have e: "itr < length es" "tree (es ! itr) = t" "matrix (es ! itr) = m"
    and v: "view_in_grid g r" by simp_all
  from recurse_total[OF assms(1), of u g abort r ?s]
  obtain b s' where rc: "recurse N u g abort r ?s = Inr (b, s')" by blast
  with Cons.prems(1) f
  have j: "join N u g abort (es[itr := ev s']) fs (depth s', norm s', polls s') = Inr (d', n', p')"
    by simp
  from recurse_frame[OF assms(1) rc] e have fr: "tree (ev s') = t" "matrix (ev s') = m" by simp_all
  have inv: "\<forall>(itr', r') \<in> set fs. itr' < length (es[itr := ev s'])
      \<and> tree (es[itr := ev s'] ! itr') = t \<and> matrix (es[itr := ev s'] ! itr') = m
      \<and> view_in_grid g r'"
    using Cons.prems(2) fr e(1) by (auto simp: nth_list_update)
  from Cons.IH[OF j inv]
  have ih: "paired u g t m (depth s', norm s') (d', n')" "sound g t m (depth s') d'"
    "sorted (pts_z g) \<and> (\<forall>k. \<not> abort k) \<longrightarrow> (\<forall>(itr, r) \<in> set fs. covered g t m r d')"
    by simp_all
  have p1: "paired u g t m (d, n) (depth s', norm s')"
    using recurse_paired[OF assms(1) rc, of t m] e by simp
  have s1: "sound g t m d (depth s')"
    using recurse_sound[OF assms(1) rc v assms(4,5)] e by simp
  have c1: "covered g t m r d'" if h: "sorted (pts_z g)" "\<forall>k. \<not> abort k"
  proof -
    from recurse_not_aborted[OF h(2) rc] rc have "recurse N u g abort r ?s = Inr (True, s')" by simp
    from recurse_covered[OF assms(1) this v h(1) assms(4,5)] e
    have "covered g t m r (depth s')" by simp
    moreover have "depth s' q \<le> d' q" for q
      using paired_le[OF ih(1), of q] by simp
    ultimately show ?thesis by (rule covered_mono)
  qed
  from p1 ih(1) have "paired u g t m (d, n) (d', n')" by (rule paired_trans)
  moreover from s1 ih(2) have "sound g t m d d'" by (rule sound_trans)
  ultimately show ?case using ih(3) c1 by (auto simp: f)
qed

lemma root_tile: "tile_ok g (view g)" "tiles_cover g [view g]"
  by (auto simp: tile_ok_def view_in_grid_def tiles_cover_def view_def pixel_def)

lemma dispatch_sem:
  assumes "es \<noteq> []"
  shows "\<exists>rs es'. dispatch m es g = Inr (es', zip [0..<length rs] rs)
     \<and> build_regions (length es) [view g] = Inr rs
     \<and> rs \<noteq> [] \<and> length rs \<le> length es
     \<and> (\<forall>r \<in> set rs. tile_ok g r) \<and> tiles_cover g rs
     \<and> length es' = length es
     \<and> (\<forall>k < length rs. es' ! k = set_matrix m (es ! k))"
proof -
  from build_regions_sem[of "[view g]" g "length es"] root_tile[of g]
  obtain rs where b: "build_regions (length es) [view g] = Inr rs" "rs \<noteq> []"
    "length rs \<le> max (length [view g]) (length es)" "\<forall>r \<in> set rs. tile_ok g r" "tiles_cover g rs"
    by auto
  from b(3) assms have le: "length rs \<le> length es" by (cases es) auto
  then have "0 + length rs \<le> length es" by simp
  from launch_sem[OF this, of m] obtain es' where
    l: "launch m es 0 rs = Inr (es', zip [0..<0 + length rs] rs)" "length es' = length es"
    "\<forall>k < length es. es' ! k = (if 0 \<le> k \<and> k < 0 + length rs then set_matrix m (es ! k) else es ! k)"
    by blast
  have "dispatch m es g = Inr (es', zip [0..<length rs] rs)"
    using b(1) l(1) by (simp add: dispatch_def)
  moreover have "\<forall>k < length rs. es' ! k = set_matrix m (es ! k)"
    using l(3) le by auto
  ultimately show ?thesis using b(1,2,4,5) le l(2) by blast
qed

lemma render_lit:
  assumes "0 < N" and "es \<noteq> []"
  shows "\<exists>d n. render N u es g abort m
       = Inr (d, (\<lambda>px. if d px = Some (last (pts_z g)) then sky else n px))
     \<and> lit ((\<lambda>_. None), (\<lambda>_. 0)) (d, n)"
proof -
  from dispatch_sem[OF assms(2), of m g] obtain es' fs where d: "dispatch m es g = Inr (es', fs)"
    by blast
  from join_lit[OF assms(1), of u g abort es' fs "\<lambda>_. None" "\<lambda>_. 0" 0]
  obtain d' n' p' where j: "join N u g abort es' fs ((\<lambda>_. None), (\<lambda>_. 0), 0) = Inr (d', n', p')"
    and l: "lit ((\<lambda>_. None), (\<lambda>_. 0)) (d', n')" by blast
  have "render N u es g abort m = Inr (d', (\<lambda>px. if d' px = Some (last (pts_z g)) then sky else n' px))"
    using d j by (simp add: render_def)
  with l show ?thesis by blast
qed

lemma sky_nonzero: "sky \<noteq> 0"
  by (simp add: sky_def)

lemma column_max_eq:
  assumes bound: "\<And>k. k < length (pts_z g) \<Longrightarrow> filled_at g t m p k \<Longrightarrow> Some (pts_z g ! k) \<le> d"
    and attained: "d = None \<or> (\<exists>k. k < length (pts_z g) \<and> filled_at g t m p k \<and> d = Some (pts_z g ! k))"
  shows "d = column_max g t m p"
proof (cases "column_hits g t m p = []")
  case True
  then have "\<not> (\<exists>k. k < length (pts_z g) \<and> filled_at g t m p k)"
    by (auto simp: column_hits_def filter_empty_conv)
  with attained True show ?thesis by (auto simp: column_max_def)
next
  case False
  then obtain k0 where k0: "k0 < length (pts_z g)" "filled_at g t m p k0"
    by (auto simp: column_hits_def filter_empty_conv)
  from bound[OF k0] obtain z where dz: "d = Some z" by (cases d) auto
  with attained obtain k where k: "k < length (pts_z g)" "filled_at g t m p k" "z = pts_z g ! k"
    by auto
  have "Max (set (column_hits g t m p)) = z"
  proof (rule Max_eqI)
    show "finite (set (column_hits g t m p))" by simp
    show "z \<in> set (column_hits g t m p)" using k by (auto simp: column_hits_def)
    fix h assume "h \<in> set (column_hits g t m p)"
    then obtain k' where "k' < length (pts_z g)" "filled_at g t m p k'" "h = pts_z g ! k'"
      by (auto simp: column_hits_def)
    with bound[of k'] dz show "h \<le> z" by simp
  qed
  with False dz show ?thesis by (simp add: column_max_def)
qed

lemma soundD:
  assumes "sound g t m d d'"
  shows "d' p = d p \<or> (fst p < length (pts_y g) \<and> snd p < length (pts_x g)
            \<and> (\<exists>k. k < length (pts_z g) \<and> filled_at g t m p k \<and> d' p = Some (pts_z g ! k)))"
  using assms unfolding sound_def by blast

lemma pairedD:
  assumes "paired u g t m (d, n) (d', n')"
  shows "d' p = d p \<longrightarrow> n' p = n p"
    and "d' p \<noteq> d p \<longrightarrow> (\<exists>z. d' p = Some z \<and> n' p = normal_at u g t m p z)"
  using assms unfolding paired_def by (metis fst_conv snd_conv)+

text \<open>
  The calls run in sequence in this development. The images they leave do not depend on
  the order chosen: any list with the calls that \<^verbatim>\<open>render\<close> launches, in any order,
  gives the images of the specification (before the constant normal is stamped).
\<close>

lemma join_result:
  assumes "0 < N" and "es \<noteq> []" and "\<forall>e \<in> set es. tree e = t"
    and "interval_sound t m" and "centres_in_bounds g" and "sorted (pts_z g)"
    and "\<forall>k. \<not> abort k"
    and "dispatch m es g = Inr (es', fs)" and "set fs' = set fs"
  shows "\<exists>p. join N u g abort es' fs' ((\<lambda>_. None), (\<lambda>_. 0), 0)
     = Inr (depth_spec g t m, surface_norm u g t m, p)"
proof -
  from dispatch_sem[OF assms(2), of m g] assms(8) obtain rs where
    fs: "fs = zip [0..<length rs] rs"
    and rs: "rs \<noteq> []" "length rs \<le> length es" "\<forall>r \<in> set rs. tile_ok g r" "tiles_cover g rs"
    and es': "length es' = length es" "\<forall>k < length rs. es' ! k = set_matrix m (es ! k)"
    by auto
  from join_lit[OF assms(1), of u g abort es' fs' "\<lambda>_. None" "\<lambda>_. 0" 0]
  obtain d' n' p' where j: "join N u g abort es' fs' ((\<lambda>_. None), (\<lambda>_. 0), 0) = Inr (d', n', p')"
    by blast
  have pre: "\<forall>(itr, r) \<in> set fs'. itr < length es' \<and> tree (es' ! itr) = t \<and> matrix (es' ! itr) = m
           \<and> view_in_grid g r"
  proof (clarify)
    fix itr r assume "(itr, r) \<in> set fs'"
    with assms(9) fs have "(itr, r) \<in> set (zip [0..<length rs] rs)" by simp
    then have i: "itr < length rs" and r: "r \<in> set rs"
      by (auto dest: set_zip_leftD set_zip_rightD)
    with rs(2) have ie: "itr < length es" by simp
    then have "es ! itr \<in> set es" by simp
    with assms(3) have "tree (es ! itr) = t" by blast
    with es'(2) i have "tree (es' ! itr) = t" "matrix (es' ! itr) = m"
      by (simp_all add: set_matrix_def)
    moreover from rs(3) r have "view_in_grid g r" by (simp add: tile_ok_def)
    ultimately show "itr < length es' \<and> tree (es' ! itr) = t \<and> matrix (es' ! itr) = m \<and> view_in_grid g r"
      using ie es'(1) by simp
  qed
  from join_post[OF assms(1) j pre assms(4,5)] assms(6,7)
  have pr: "paired u g t m ((\<lambda>_. None), (\<lambda>_. 0)) (d', n')"
    and so: "sound g t m (\<lambda>_. None) d'"
    and co: "\<forall>(itr, r) \<in> set fs'. covered g t m r d'"
    by simp_all
  have cov: "covered g t m r d'" if "r \<in> set rs" for r
  proof -
    from that obtain i where "i < length rs" "r = rs ! i" by (auto simp: in_set_conv_nth)
    then have "(i, r) \<in> set (zip [0..<length rs] rs)" by (auto simp: in_set_zip intro!: exI[of _ i])
    with assms(9) fs have "(i, r) \<in> set fs'" by simp
    with co show ?thesis by blast
  qed
  have depth: "d' p = depth_spec g t m p" for p
  proof (cases "fst p < length (pts_y g) \<and> snd p < length (pts_x g)")
    case False
    with soundD[OF so, of p] have "d' p = None" by blast
    with False show ?thesis by (auto simp: depth_spec_def)
  next
    case True
    with rs(4) obtain r i j where r: "r \<in> set rs" "i < size_x r" "j < size_y r"
      "pixel r i j = (fst p, snd p)"
      unfolding tiles_cover_def by blast
    from rs(3) r(1) have tile: "corner_z r = 0" "size_z r = length (pts_z g)"
      by (simp_all add: tile_ok_def)
    have bound: "Some (pts_z g ! k) \<le> d' p" if "k < length (pts_z g)" "filled_at g t m p k" for k
      using coveredD[OF cov[OF r(1)] r(2,3), of k] that r(4) tile by simp
    from soundD[OF so, of p]
    have "d' p = None \<or> (\<exists>k. k < length (pts_z g) \<and> filled_at g t m p k \<and> d' p = Some (pts_z g ! k))"
      by blast
    from column_max_eq[OF bound this] True show ?thesis by (simp add: depth_spec_def)
  qed
  then have deq: "d' = depth_spec g t m" by (rule ext)
  have "n' p = surface_norm u g t m p" for p
  proof -
    from pairedD[OF pr, of p] have "d' p = None \<longrightarrow> n' p = 0"
      "d' p \<noteq> None \<longrightarrow> (\<exists>z. d' p = Some z \<and> n' p = normal_at u g t m p z)"
      by simp_all
    then show ?thesis by (cases "d' p") (auto simp: surface_norm_def deq[symmetric])
  qed
  then have "n' = surface_norm u g t m" by (rule ext)
  with j deq show ?thesis by simp
qed

lemma render_result:
  assumes "0 < N" and "es \<noteq> []" and "\<forall>e \<in> set es. tree e = t"
    and "interval_sound t m" and "centres_in_bounds g" and "sorted (pts_z g)"
    and "\<forall>k. \<not> abort k"
  shows "render N u es g abort m = Inr (depth_spec g t m, norm_spec u g t m)"
proof -
  from dispatch_sem[OF assms(2), of m g] obtain es' fs where d: "dispatch m es g = Inr (es', fs)"
    by blast
  from join_result[OF assms d refl, of u] obtain p where
    "join N u g abort es' fs ((\<lambda>_. None), (\<lambda>_. 0), 0)
      = Inr (depth_spec g t m, surface_norm u g t m, p)" by blast
  with d show ?thesis by (simp add: render_def norm_spec_def)
qed

lemma scene_interval_sound: "interval_sound scene_tree id"
  by (simp add: interval_sound_def scene_tree_def split: prod.splits)

lemma scene_centres: "centres_in_bounds scene_grid"
  unfolding centres_in_bounds_def
proof (intro allI impI, elim conjE)
  fix r i j k
  assume v: "view_in_grid scene_grid r" and ijk: "i < size_x r" "j < size_y r" "k < size_z r"
  have a: "0 \<le> [0, 1, 2 :: real] ! n \<and> [0, 1, 2 :: real] ! n \<le> 2" if "n < 3" for n
    using that by (auto simp: nth_Cons')
  have b: "0 \<le> [0, 1 :: real] ! n \<and> [0, 1 :: real] ! n \<le> 2" if "n < 2" for n
    using that by (auto simp: nth_Cons')
  from v ijk have "corner_x r + i < 3" "corner_y r + j < 2" "corner_z r + k < 3"
    by (auto simp: view_in_grid_def scene_grid_def)
  with a[of "corner_x r + i"] b[of "corner_y r + j"] a[of "corner_z r + k"]
  show "in_box (view_lower scene_grid r) (view_upper scene_grid r)
      (pts_x scene_grid ! (corner_x r + i), pts_y scene_grid ! (corner_y r + j),
       pts_z scene_grid ! (corner_z r + k))"
    by (simp add: in_box_def scene_grid_def)
qed

lemma scene_sorted: "sorted (pts_z scene_grid)"
  by (simp add: scene_grid_def)

lemma scene_column_max:
  "column_max scene_grid scene_tree id (0, 0) = Some 2"
  "column_max scene_grid scene_tree id (0, 1) = Some 0"
  "column_max scene_grid scene_tree id (0, 2) = None"
  by (simp_all add: column_max_def column_hits_def filled_at_def scene_grid_def scene_tree_def)

lemma render_empty_pool: "render N u [] g abort m = Inl Out_of_bounds"
  by (simp add: render_def dispatch_def build_regions.simps)

lemma render_returns:
  assumes "0 < N"
  shows "(\<exists>d n. render N u es g abort m = Inr (d, n)) \<longleftrightarrow> es \<noteq> []"
  using render_lit[OF assms, of es u g abort m] render_empty_pool[of N u g abort m]
  by (cases "es = []") auto

text \<open>
  Claim C1. Take evaluators bound to one tree \<open>t\<close> that meet the contract (the interval
  returned for a box bounds the field on the box, and a value below zero means inside),
  a grid whose z samples are sorted and whose voxel centres lie within the bounds of
  their views, a positive batch capacity and an abort flag that is never set. Then
  \<^verbatim>\<open>render\<close> with a non-empty pool returns, and in whatever it returns the depth of every
  pixel \<open>(x, y)\<close> of the image is the maximum \<open>pz[k]\<close> over the voxels of the column with a
  negative field value, and minus infinity when there is none.
\<close>

theorem render_depth_is_column_maximum:
  assumes "0 < N" and "\<forall>e \<in> set es. tree e = t"
    and "interval_sound t m" and "centres_in_bounds g" and "sorted (pts_z g)"
    and "\<forall>k. \<not> abort k"
  shows "(es \<noteq> [] \<longrightarrow> (\<exists>d n. render N u es g abort m = Inr (d, n)))
     \<and> (\<forall>d n x y. render N u es g abort m = Inr (d, n)
           \<and> x < length (pts_x g) \<and> y < length (pts_y g)
           \<longrightarrow> d (y, x) = column_max g t m (y, x))"
proof (intro conjI allI impI)
  assume "es \<noteq> []"
  with render_returns[OF assms(1)] show "\<exists>d n. render N u es g abort m = Inr (d, n)" by blast
next
  fix d n x y
  assume h: "render N u es g abort m = Inr (d, n) \<and> x < length (pts_x g) \<and> y < length (pts_y g)"
  with render_returns[OF assms(1), of u es g abort m] have "es \<noteq> []" by blast
  from render_result[OF assms(1) this assms(2-6), of u] h
  have "d = depth_spec g t m" by simp
  with h show "d (y, x) = column_max g t m (y, x)" by (simp add: depth_spec_def)
qed

theorem render_depth_is_column_maximum_witness:
  "(0::nat) < 2 \<and> interval_sound scene_tree id \<and> centres_in_bounds scene_grid
   \<and> sorted (pts_z scene_grid) \<and> (\<forall>k. \<not> never k)
   \<and> (\<exists>d n. render 2 0 [new_evaluator scene_tree] scene_grid never id = Inr (d, n)
        \<and> d (0, 0) = Some 2 \<and> d (0, 1) = Some 0 \<and> d (0, 2) = None)"
proof -
  have h1: "(0::nat) < 2" by simp
  have h2: "\<forall>e \<in> set [new_evaluator scene_tree]. tree e = scene_tree"
    by (simp add: new_evaluator_def)
  have h6: "\<forall>k. \<not> never k" by (simp add: never_def)
  note inst = render_depth_is_column_maximum[OF h1 h2 scene_interval_sound scene_centres scene_sorted h6,
      of 0]
  from inst obtain d n where r: "render 2 0 [new_evaluator scene_tree] scene_grid never id = Inr (d, n)"
    by auto
  have len: "length (pts_x scene_grid) = 3" "length (pts_y scene_grid) = 2"
    by (simp_all add: scene_grid_def)
  from inst r len have "d (0, 0) = column_max scene_grid scene_tree id (0, 0)"
    "d (0, 1) = column_max scene_grid scene_tree id (0, 1)"
    "d (0, 2) = column_max scene_grid scene_tree id (0, 2)"
    by simp_all
  with r have "\<exists>d n. render 2 0 [new_evaluator scene_tree] scene_grid never id = Inr (d, n)
        \<and> d (0, 0) = Some 2 \<and> d (0, 1) = Some 0 \<and> d (0, 2) = None"
    by (simp add: scene_column_max del: One_nat_def)
  with h1 h6 scene_interval_sound scene_centres scene_sorted show ?thesis by blast
qed

lemma scene_render:
  "render 2 0 [new_evaluator scene_tree] scene_grid never id
     = Inr (depth_spec scene_grid scene_tree id, norm_spec 0 scene_grid scene_tree id)"
  by (rule render_result[OF _ _ _ scene_interval_sound scene_centres scene_sorted])
     (simp_all add: new_evaluator_def never_def)

lemma scene_depth:
  "depth_spec scene_grid scene_tree id (0, 0) = Some 2"
  "depth_spec scene_grid scene_tree id (0, 2) = None"
  "last (pts_z scene_grid) = 2"
  by (simp_all add: depth_spec_def scene_column_max) (simp_all add: scene_grid_def)

text \<open>
  Claim C4. With a positive batch capacity, \<^verbatim>\<open>render\<close> with a non-empty pool returns, and
  in whatever it returns every pixel whose depth equals the last z sample \<open>pz[Nz-1]\<close>
  holds the word \<open>0xFFFF7F7F\<close> in the normal image, whatever was written there before.
\<close>

theorem top_pixels_hold_sky_normal:
  assumes "0 < N"
  shows "(es \<noteq> [] \<longrightarrow> (\<exists>d n. render N u es g abort m = Inr (d, n)))
     \<and> (\<forall>d n p. render N u es g abort m = Inr (d, n) \<and> d p = Some (last (pts_z g))
           \<longrightarrow> n p = 0xFFFF7F7F)"
proof (intro conjI allI impI)
  assume "es \<noteq> []"
  with render_returns[OF assms] show "\<exists>d n. render N u es g abort m = Inr (d, n)" by blast
next
  fix d n p
  assume h: "render N u es g abort m = Inr (d, n) \<and> d p = Some (last (pts_z g))"
  with render_returns[OF assms, of u es g abort m] have "es \<noteq> []" by blast
  from render_lit[OF assms this, of u g abort m] h
  obtain n0 where "n = (\<lambda>px. if d px = Some (last (pts_z g)) then sky else n0 px)" by auto
  with h show "n p = 0xFFFF7F7F" by (simp add: sky_def)
qed

theorem top_pixels_hold_sky_normal_witness:
  "(0::nat) < 2
   \<and> (\<exists>d n. render 2 0 [new_evaluator scene_tree] scene_grid never id = Inr (d, n)
        \<and> d (0, 0) = Some (last (pts_z scene_grid)) \<and> n (0, 0) = 0xFFFF7F7F)"
proof -
  have h: "(0::nat) < 2" by simp
  let ?d = "depth_spec scene_grid scene_tree id" and ?n = "norm_spec 0 scene_grid scene_tree id"
  have top: "?d (0, 0) = Some (last (pts_z scene_grid))" by (simp add: scene_depth)
  from top_pixels_hold_sky_normal[OF h, of "[new_evaluator scene_tree]" 0 scene_grid never id]
    scene_render top
  have "?n (0, 0) = 0xFFFF7F7F" by blast
  with scene_render top h show ?thesis by blast
qed

text \<open>
  Claim C7. With a positive batch capacity, \<^verbatim>\<open>render\<close> with a non-empty pool returns
  (also when it is aborted), and in whatever it returns each pixel has a non-zero normal
  word if its depth is not minus infinity, and the normal word 0 if it is.
\<close>

theorem normal_set_iff_depth_set:
  assumes "0 < N"
  shows "(es \<noteq> [] \<longrightarrow> (\<exists>d n. render N u es g abort m = Inr (d, n)))
     \<and> (\<forall>d n p. render N u es g abort m = Inr (d, n)
           \<longrightarrow> (d p \<noteq> None \<longrightarrow> n p \<noteq> 0) \<and> (d p = None \<longrightarrow> n p = 0))"
proof -
  have a: "es \<noteq> [] \<longrightarrow> (\<exists>d n. render N u es g abort m = Inr (d, n))"
    using render_returns[OF assms] by blast
  have b: "(d p \<noteq> None \<longrightarrow> n p \<noteq> 0) \<and> (d p = None \<longrightarrow> n p = 0)"
    if h: "render N u es g abort m = Inr (d, n)" for d n p
  proof -
    from h render_returns[OF assms, of u es g abort m] have "es \<noteq> []" by blast
    from render_lit[OF assms this, of u g abort m] h
    obtain n0 where n: "n = (\<lambda>px. if d px = Some (last (pts_z g)) then sky else n0 px)"
      and l: "lit ((\<lambda>_. None), (\<lambda>_. 0)) (d, n0)" by auto
    from l have "d p = None \<longrightarrow> n0 p = 0" "d p \<noteq> None \<longrightarrow> n0 p \<noteq> 0"
      unfolding lit_def by (metis fst_conv snd_conv)+
    then show ?thesis by (auto simp: n sky_nonzero)
  qed
  from a b show ?thesis by blast
qed

theorem normal_set_iff_depth_set_witness:
  "(0::nat) < 2
   \<and> (\<exists>d n. render 2 0 [new_evaluator scene_tree] scene_grid never id = Inr (d, n)
        \<and> d (0, 0) \<noteq> None \<and> n (0, 0) \<noteq> 0 \<and> d (0, 2) = None \<and> n (0, 2) = 0)"
proof -
  have h: "(0::nat) < 2" by simp
  let ?d = "depth_spec scene_grid scene_tree id" and ?n = "norm_spec 0 scene_grid scene_tree id"
  have d: "?d (0, 0) \<noteq> None" "?d (0, 2) = None" by (simp_all add: scene_depth)
  from normal_set_iff_depth_set[OF h, of "[new_evaluator scene_tree]" 0 scene_grid never id]
    scene_render d
  have "?n (0, 0) \<noteq> 0" "?n (0, 2) = 0" by blast+
  with scene_render d h show ?thesis by blast
qed

lemma build_regions_stop:
  assumes "build_regions w rs = Inr rs'" and "length rs \<le> w"
  shows "length rs' = w \<or> min (size_x (hd rs')) (size_y (hd rs')) \<le> 1"
  using assms
proof (induction "w - length rs" arbitrary: rs rule: less_induct)
  case less
  show ?case
  proof (cases rs)
    case Nil
    with less.prems(1) show ?thesis by (subst (asm) build_regions.simps) simp
  next
    case (Cons f rest)
    show ?thesis
    proof (cases "length rs < w \<and> 1 < min (size_x f) (size_y f)")
      case False
      with less.prems(1) Cons have "rs' = rs"
        by (subst (asm) build_regions.simps) (auto split: if_splits)
      with False Cons less.prems(2) show ?thesis by auto
    next
      case True
      then obtain a b where sp: "split_xy f = Inr (a, b)" using split_xy_defined by blast
      let ?rs = "rest @ [a, b]"
      have "build_regions w rs = build_regions w ?rs"
        using True sp by (subst build_regions.simps) (simp add: Cons)
      with less.prems(1) have br: "build_regions w ?rs = Inr rs'" by simp
      have "w - length ?rs < w - length rs" "length ?rs \<le> w" using True by (auto simp: Cons)
      from less.hyps[OF this(1) br this(2)] show ?thesis .
    qed
  qed
qed

text \<open>
  Claim C6, as the code has it. With a non-empty pool, \<^verbatim>\<open>render\<close> launches at least one
  call and at most as many calls as there are evaluators; the number of calls is the
  size of the pool unless the splitting stopped because the front region was one pixel
  wide in X or Y; and the \<open>k\<close>-th call uses the \<open>k\<close>-th evaluator, so no evaluator is used by
  two calls.
\<close>

theorem calls_within_pool:
  assumes "es \<noteq> []"
  shows "\<exists>es' futures. dispatch m es g = Inr (es', futures)
     \<and> 1 \<le> length futures \<and> length futures \<le> length es
     \<and> (length futures = length es
          \<or> min (size_x (snd (hd futures))) (size_y (snd (hd futures))) \<le> 1)
     \<and> map fst futures = [0..<length futures] \<and> distinct (map fst futures)"
proof -
  from dispatch_sem[OF assms, of m g] obtain rs es' where
    d: "dispatch m es g = Inr (es', zip [0..<length rs] rs)"
    and b: "build_regions (length es) [view g] = Inr rs"
    and rs: "rs \<noteq> []" "length rs \<le> length es" by blast
  let ?fs = "zip [0..<length rs] rs"
  have len: "length ?fs = length rs" by simp
  from rs(1) have hd: "snd (hd ?fs) = hd rs"
    by (cases rs) (simp_all add: upt_conv_Cons del: upt_Suc)
  from assms have "length [view g] \<le> length es" by (cases es) simp_all
  from build_regions_stop[OF b this]
  have stop: "length rs = length es \<or> min (size_x (hd rs)) (size_y (hd rs)) \<le> 1" .
  have idx: "map fst ?fs = [0..<length ?fs]" by simp
  have "1 \<le> length ?fs" using rs(1) by (cases rs) simp_all
  moreover have "distinct (map fst ?fs)" by (simp only: idx distinct_upt)
  ultimately show ?thesis using d rs(2) stop idx len hd by (intro exI[of _ es'] exI[of _ ?fs]) simp
qed

theorem calls_within_pool_witness:
  "[new_evaluator scene_tree, new_evaluator scene_tree] \<noteq> []
   \<and> (\<exists>es' futures. dispatch id [new_evaluator scene_tree, new_evaluator scene_tree] scene_grid
          = Inr (es', futures)
        \<and> 1 \<le> length futures \<and> length futures \<le> 2
        \<and> map fst futures = [0..<length futures])"
proof -
  have h: "[new_evaluator scene_tree, new_evaluator scene_tree] \<noteq> []" by simp
  from calls_within_pool[OF h, of id scene_grid] show ?thesis using h by auto
qed

text \<open>
  The claim as stated fails: for a grid of a single voxel and a pool of two evaluators,
  the region cannot be split and one call is launched.
\<close>

theorem one_call_for_two_evaluators:
  "\<not> isl (dispatch id (replicate 2 (new_evaluator scene_tree)) single_voxel)
   \<and> length (snd (projr (dispatch id (replicate 2 (new_evaluator scene_tree)) single_voxel))) = 1
   \<and> length (replicate 2 (new_evaluator scene_tree)) = 2"
  by (simp add: dispatch_def build_regions.simps view_def single_voxel_def numeral_2_eq_2)



















end
